theory Spec2Isabelle
  imports Main "HOL-Library.AList" "HOL-Library.Char_ord" "HOL-Library.List_Lexorder"
begin

section \<open>Data model (types.ts)\<close>

datatype Player = Black | White

record Piece =
  piece_id :: string
  player :: Player

type_synonym NodeId = string

record BoardNode =
  node_id :: NodeId
  node_x :: int
  node_y :: int
  neighbors :: "NodeId list"
  isMaoce :: bool

text \<open>
  A JavaScript object with string keys that are not array indices enumerates its keys in
  insertion order; assigning to an existing key keeps its place, assigning to a new key
  appends it, and \<open>delete\<close> removes it. That is an association list with
  \<open>AList.update\<close>, \<open>AList.delete\<close> and \<open>map_of\<close>. An object has each key once:
  \<open>distinct (map fst ps)\<close>.
\<close>

type_synonym Pieces = "(NodeId \<times> Piece) list"

record GameStateSnapshot =
  snap_pieces :: Pieces
  snap_currentPlayer :: Player

record GameState =
  pieces :: Pieces
  currentPlayer :: Player
  winner :: "Player option"
  history :: "GameStateSnapshot list"
  turnCount :: int

record Move =
  fromN :: NodeId
  toN :: NodeId
  captures :: "NodeId list option"
  captureSteps :: "NodeId list list option"

section \<open>Board topology (board-config.ts)\<close>

definition ROWS :: nat where "ROWS = 5"
definition COLS :: nat where "COLS = 5"

definition digit :: "nat \<Rightarrow> char" where
  "digit n = ''0123456789'' ! n"

fun showNat :: "nat \<Rightarrow> string" where
  "showNat n = (if n < 10 then [digit n] else showNat (n div 10) @ [digit (n mod 10)])"

declare showNat.simps [simp del]

definition getId :: "nat \<Rightarrow> nat \<Rightarrow> NodeId" where
  "getId r c = showNat r @ '','' @ showNat c"

type_synonym Nodes = "(NodeId \<times> BoardNode) list"

definition gridNodes :: Nodes where
  "gridNodes = foldl (\<lambda>ns (r, c).
       AList.update (getId r c)
         \<lparr>node_id = getId r c, node_x = int c * 100, node_y = int r * 100,
          neighbors = [], isMaoce = False\<rparr> ns)
     [] (List.product [0..<ROWS] [0..<COLS])"

definition attachPointId :: NodeId where
  "attachPointId = getId 2 4"

definition maoceNodes :: "BoardNode list" where
  "maoceNodes =
    [\<lparr>node_id = ''m_top'', node_x = 500, node_y = 100, neighbors = [], isMaoce = True\<rparr>,
     \<lparr>node_id = ''m_right'', node_x = 600, node_y = 200, neighbors = [], isMaoce = True\<rparr>,
     \<lparr>node_id = ''m_bottom'', node_x = 500, node_y = 300, neighbors = [], isMaoce = True\<rparr>,
     \<lparr>node_id = ''m_center'', node_x = 500, node_y = 200, neighbors = [], isMaoce = True\<rparr>]"

definition pushNeighbor :: "NodeId \<Rightarrow> NodeId \<Rightarrow> Nodes \<Rightarrow> Nodes" where
  "pushNeighbor a b ns =
     (case map_of ns a of
        None \<Rightarrow> ns
      | Some n \<Rightarrow>
          if b \<in> set (neighbors n) then ns
          else AList.update a (n\<lparr>neighbors := neighbors n @ [b]\<rparr>) ns)"

definition addEdge :: "NodeId \<Rightarrow> NodeId \<Rightarrow> Nodes \<Rightarrow> Nodes" where
  "addEdge id1 id2 ns =
     (if map_of ns id1 \<noteq> None \<and> map_of ns id2 \<noteq> None
      then pushNeighbor id2 id1 (pushNeighbor id1 id2 ns)
      else ns)"

definition orthogonalEdges :: "Nodes \<Rightarrow> Nodes" where
  "orthogonalEdges ns0 = foldl (\<lambda>ns (r, c).
       (let ns1 = (if c + 1 < COLS then addEdge (getId r c) (getId r (c + 1)) ns else ns)
        in if r + 1 < ROWS then addEdge (getId r c) (getId (r + 1) c) ns1 else ns1))
     ns0 (List.product [0..<ROWS] [0..<COLS])"

definition centers :: "(nat \<times> nat) list" where
  "centers = [(1, 1), (1, 3), (3, 1), (3, 3)]"

definition diagonalEdges :: "Nodes \<Rightarrow> Nodes" where
  "diagonalEdges ns0 = foldl (\<lambda>ns (r, c).
       addEdge (getId r c) (getId (r + 1) (c + 1))
         (addEdge (getId r c) (getId (r + 1) (c - 1))
           (addEdge (getId r c) (getId (r - 1) (c + 1))
             (addEdge (getId r c) (getId (r - 1) (c - 1)) ns))))
     ns0 centers"

definition maoceEdges :: "Nodes \<Rightarrow> Nodes" where
  "maoceEdges ns =
     addEdge ''m_right'' ''m_bottom''
       (addEdge ''m_top'' ''m_right''
         (addEdge ''m_center'' ''m_bottom''
           (addEdge ''m_center'' ''m_right''
             (addEdge ''m_center'' ''m_top''
               (addEdge attachPointId ''m_center''
                 (addEdge attachPointId ''m_bottom''
                   (addEdge attachPointId ''m_top'' ns)))))))"

definition buildNodes :: Nodes where
  "buildNodes =
     maoceEdges (diagonalEdges (orthogonalEdges
       (foldl (\<lambda>ns n. AList.update (node_id n) n ns) gridNodes maoceNodes)))"


definition BOARD_NODES :: Nodes where
  "BOARD_NODES = buildNodes"

text \<open>The table that the construction computes, in the key order of the object.\<close>

lemma BOARD_NODES_table [code]:
  "BOARD_NODES =
     [(''0,0'', \<lparr>node_id = ''0,0'', node_x = 0, node_y = 0,
        neighbors = [''0,1'', ''1,0'', ''1,1''], isMaoce = False\<rparr>),
      (''0,1'', \<lparr>node_id = ''0,1'', node_x = 100, node_y = 0,
        neighbors = [''0,0'', ''0,2'', ''1,1''], isMaoce = False\<rparr>),
      (''0,2'', \<lparr>node_id = ''0,2'', node_x = 200, node_y = 0,
        neighbors = [''0,1'', ''0,3'', ''1,2'', ''1,1'', ''1,3''], isMaoce = False\<rparr>),
      (''0,3'', \<lparr>node_id = ''0,3'', node_x = 300, node_y = 0,
        neighbors = [''0,2'', ''0,4'', ''1,3''], isMaoce = False\<rparr>),
      (''0,4'', \<lparr>node_id = ''0,4'', node_x = 400, node_y = 0,
        neighbors = [''0,3'', ''1,4'', ''1,3''], isMaoce = False\<rparr>),
      (''1,0'', \<lparr>node_id = ''1,0'', node_x = 0, node_y = 100,
        neighbors = [''0,0'', ''1,1'', ''2,0''], isMaoce = False\<rparr>),
      (''1,1'', \<lparr>node_id = ''1,1'', node_x = 100, node_y = 100,
        neighbors = [''0,1'', ''1,0'', ''1,2'', ''2,1'', ''0,0'', ''0,2'', ''2,0'', ''2,2''], isMaoce = False\<rparr>),
      (''1,2'', \<lparr>node_id = ''1,2'', node_x = 200, node_y = 100,
        neighbors = [''0,2'', ''1,1'', ''1,3'', ''2,2''], isMaoce = False\<rparr>),
      (''1,3'', \<lparr>node_id = ''1,3'', node_x = 300, node_y = 100,
        neighbors = [''0,3'', ''1,2'', ''1,4'', ''2,3'', ''0,2'', ''0,4'', ''2,2'', ''2,4''], isMaoce = False\<rparr>),
      (''1,4'', \<lparr>node_id = ''1,4'', node_x = 400, node_y = 100,
        neighbors = [''0,4'', ''1,3'', ''2,4''], isMaoce = False\<rparr>),
      (''2,0'', \<lparr>node_id = ''2,0'', node_x = 0, node_y = 200,
        neighbors = [''1,0'', ''2,1'', ''3,0'', ''1,1'', ''3,1''], isMaoce = False\<rparr>),
      (''2,1'', \<lparr>node_id = ''2,1'', node_x = 100, node_y = 200,
        neighbors = [''1,1'', ''2,0'', ''2,2'', ''3,1''], isMaoce = False\<rparr>),
      (''2,2'', \<lparr>node_id = ''2,2'', node_x = 200, node_y = 200,
        neighbors = [''1,2'', ''2,1'', ''2,3'', ''3,2'', ''1,1'', ''1,3'', ''3,1'', ''3,3''], isMaoce = False\<rparr>),
      (''2,3'', \<lparr>node_id = ''2,3'', node_x = 300, node_y = 200,
        neighbors = [''1,3'', ''2,2'', ''2,4'', ''3,3''], isMaoce = False\<rparr>),
      (''2,4'', \<lparr>node_id = ''2,4'', node_x = 400, node_y = 200,
        neighbors = [''1,4'', ''2,3'', ''3,4'', ''1,3'', ''3,3'', ''m_top'', ''m_bottom'', ''m_center''], isMaoce = False\<rparr>),
      (''3,0'', \<lparr>node_id = ''3,0'', node_x = 0, node_y = 300,
        neighbors = [''2,0'', ''3,1'', ''4,0''], isMaoce = False\<rparr>),
      (''3,1'', \<lparr>node_id = ''3,1'', node_x = 100, node_y = 300,
        neighbors = [''2,1'', ''3,0'', ''3,2'', ''4,1'', ''2,0'', ''2,2'', ''4,0'', ''4,2''], isMaoce = False\<rparr>),
      (''3,2'', \<lparr>node_id = ''3,2'', node_x = 200, node_y = 300,
        neighbors = [''2,2'', ''3,1'', ''3,3'', ''4,2''], isMaoce = False\<rparr>),
      (''3,3'', \<lparr>node_id = ''3,3'', node_x = 300, node_y = 300,
        neighbors = [''2,3'', ''3,2'', ''3,4'', ''4,3'', ''2,2'', ''2,4'', ''4,2'', ''4,4''], isMaoce = False\<rparr>),
      (''3,4'', \<lparr>node_id = ''3,4'', node_x = 400, node_y = 300,
        neighbors = [''2,4'', ''3,3'', ''4,4''], isMaoce = False\<rparr>),
      (''4,0'', \<lparr>node_id = ''4,0'', node_x = 0, node_y = 400,
        neighbors = [''3,0'', ''4,1'', ''3,1''], isMaoce = False\<rparr>),
      (''4,1'', \<lparr>node_id = ''4,1'', node_x = 100, node_y = 400,
        neighbors = [''3,1'', ''4,0'', ''4,2''], isMaoce = False\<rparr>),
      (''4,2'', \<lparr>node_id = ''4,2'', node_x = 200, node_y = 400,
        neighbors = [''3,2'', ''4,1'', ''4,3'', ''3,1'', ''3,3''], isMaoce = False\<rparr>),
      (''4,3'', \<lparr>node_id = ''4,3'', node_x = 300, node_y = 400,
        neighbors = [''3,3'', ''4,2'', ''4,4''], isMaoce = False\<rparr>),
      (''4,4'', \<lparr>node_id = ''4,4'', node_x = 400, node_y = 400,
        neighbors = [''3,4'', ''4,3'', ''3,3''], isMaoce = False\<rparr>),
      (''m_top'', \<lparr>node_id = ''m_top'', node_x = 500, node_y = 100,
        neighbors = [''2,4'', ''m_center'', ''m_right''], isMaoce = True\<rparr>),
      (''m_right'', \<lparr>node_id = ''m_right'', node_x = 600, node_y = 200,
        neighbors = [''m_center'', ''m_top'', ''m_bottom''], isMaoce = True\<rparr>),
      (''m_bottom'', \<lparr>node_id = ''m_bottom'', node_x = 500, node_y = 300,
        neighbors = [''2,4'', ''m_center'', ''m_right''], isMaoce = True\<rparr>),
      (''m_center'', \<lparr>node_id = ''m_center'', node_x = 500, node_y = 200,
        neighbors = [''2,4'', ''m_top'', ''m_right'', ''m_bottom''], isMaoce = True\<rparr>)]"
  unfolding BOARD_NODES_def by code_simp

text \<open>
  Coordinates are multiples of 100, so the cross product is an integer that JavaScript's
  doubles hold exactly; \<open>Math.abs(val) < 1e-5\<close> is \<open>\<bar>val\<bar> * 100000 < 1\<close> on integers.
\<close>

definition areCollinear :: "NodeId \<Rightarrow> NodeId \<Rightarrow> NodeId \<Rightarrow> bool" where
  "areCollinear n1 n2 n3 =
     (case map_of BOARD_NODES n1 of None \<Rightarrow> False | Some p1 \<Rightarrow>
      case map_of BOARD_NODES n2 of None \<Rightarrow> False | Some p2 \<Rightarrow>
      case map_of BOARD_NODES n3 of None \<Rightarrow> False | Some p3 \<Rightarrow>
        (let val = (node_y p2 - node_y p1) * (node_x p3 - node_x p2)
                 - (node_x p2 - node_x p1) * (node_y p3 - node_y p2)
         in \<bar>val\<bar> * 100000 < 1))"

section \<open>Errors\<close>

text \<open>
  \<open>TypeError\<close>: reading a property of \<open>undefined\<close> (a node identifier that is not a key
  of \<open>BOARD_NODES\<close>, a piece that is not there). \<open>RangeError\<close>: the call stack is
  exhausted; the recursion of \<open>minimax\<close> carries the number of frames left.
\<close>

datatype error = TypeError | RangeError

fun collect :: "('a \<Rightarrow> error + 'b list) \<Rightarrow> 'a list \<Rightarrow> error + 'b list" where
  "collect f [] = Inr []"
| "collect f (x # xs) =
     (case f x of Inl e \<Rightarrow> Inl e
      | Inr ys \<Rightarrow> (case collect f xs of Inl e \<Rightarrow> Inl e | Inr zs \<Rightarrow> Inr (ys @ zs)))"

fun foldE :: "('s \<Rightarrow> 'a \<Rightarrow> error + 's) \<Rightarrow> 's \<Rightarrow> 'a list \<Rightarrow> error + 's" where
  "foldE f s [] = Inr s"
| "foldE f s (x # xs) = (case f s x of Inl e \<Rightarrow> Inl e | Inr s' \<Rightarrow> foldE f s' xs)"

section \<open>Rules (rules.ts)\<close>

fun getOpponent :: "Player \<Rightarrow> Player" where
  "getOpponent p = (if p = Black then White else Black)"

definition playerAt :: "Pieces \<Rightarrow> NodeId \<Rightarrow> Player option" where
  \<comment> \<open>\<open>pieces[n]?.player\<close>\<close>
  "playerAt ps n = map_option player (map_of ps n)"

subsection \<open>checkPick\<close>

definition pairKey :: "NodeId \<Rightarrow> NodeId \<Rightarrow> string" where
  \<comment> \<open>\<open>[n1, n2].sort().join('-')\<close>\<close>
  "pairKey n1 n2 = (if n2 < n1 then n2 @ ''-'' @ n1 else n1 @ ''-'' @ n2)"

text \<open>The body of the inner loop of \<open>checkPick\<close>; the state is \<open>(result, visitedPairs)\<close>.\<close>

definition pickInner ::
  "Pieces \<Rightarrow> NodeId \<Rightarrow> Player \<Rightarrow> NodeId \<Rightarrow> NodeId list \<times> string set \<Rightarrow> NodeId
     \<Rightarrow> NodeId list \<times> string set" where
  "pickInner ps center opp n1 acc n2 =
     (case acc of (result, visitedPairs) \<Rightarrow>
        if n1 = n2 then acc
        else if pairKey n1 n2 \<in> visitedPairs then acc
        else (if areCollinear n1 center n2
                 \<and> playerAt ps n1 = Some opp \<and> playerAt ps n2 = Some opp
              then result @ [n1, n2] else result,
              insert (pairKey n1 n2) visitedPairs))"

definition checkPick :: "Pieces \<Rightarrow> NodeId \<Rightarrow> Player \<Rightarrow> NodeId list" where
  "checkPick ps center me =
     (case map_of BOARD_NODES center of
        None \<Rightarrow> []
      | Some centerNode \<Rightarrow>
          fst (foldl (\<lambda>acc n1. foldl (pickInner ps center (getOpponent me) n1) acc
                                   (neighbors centerNode))
                 ([], {}) (neighbors centerNode)))"

subsection \<open>checkClamp\<close>

definition clampInner :: "Pieces \<Rightarrow> NodeId \<Rightarrow> Player \<Rightarrow> NodeId \<Rightarrow> NodeId list \<Rightarrow> NodeId
     \<Rightarrow> NodeId list" where
  "clampInner ps center me n1 result n2 =
     (if n2 = center then result
      else if areCollinear center n1 n2 \<and> playerAt ps n2 = Some me then result @ [n1]
      else result)"

definition clampOuter :: "Pieces \<Rightarrow> NodeId \<Rightarrow> Player \<Rightarrow> NodeId list \<Rightarrow> NodeId
     \<Rightarrow> error + NodeId list" where
  "clampOuter ps center me result n1 =
     (if playerAt ps n1 = Some (getOpponent me)
      then (case map_of BOARD_NODES n1 of
              None \<Rightarrow> Inl TypeError
            | Some n1Node \<Rightarrow> Inr (foldl (clampInner ps center me n1) result (neighbors n1Node)))
      else Inr result)"

definition checkClamp :: "Pieces \<Rightarrow> NodeId \<Rightarrow> Player \<Rightarrow> error + NodeId list" where
  "checkClamp ps center me =
     (case map_of BOARD_NODES center of
        None \<Rightarrow> Inr []
      | Some centerNode \<Rightarrow> foldE (clampOuter ps center me) [] (neighbors centerNode))"

subsection \<open>calculateRecursiveCaptures\<close>

text \<open>The locals that the loops of \<open>calculateRecursiveCaptures\<close> mutate.\<close>

record CaptureState =
  c_pieces :: Pieces
  totalCaptures :: "NodeId list"
  currentStepFlips :: "NodeId list"
  nextBatch :: "NodeId list"
  processedNodes :: "NodeId set"

definition flipPiece :: "Player \<Rightarrow> NodeId \<Rightarrow> Pieces \<Rightarrow> Pieces" where
  \<comment> \<open>\<open>if (ps[n]) ps[n] = {...ps[n], player: p}\<close>\<close>
  "flipPiece p n ps =
     (case map_of ps n of None \<Rightarrow> ps | Some pc \<Rightarrow> AList.update n (pc\<lparr>player := p\<rparr>) ps)"

definition applyFlip :: "Player \<Rightarrow> CaptureState \<Rightarrow> NodeId \<Rightarrow> CaptureState" where
  "applyFlip me st fid =
     (if fid \<in> set (totalCaptures st) then st
      else (let st1 = st\<lparr>totalCaptures := totalCaptures st @ [fid],
                         currentStepFlips := currentStepFlips st @ [fid]\<rparr>
            in if map_of (c_pieces st1) fid \<noteq> None
               then st1\<lparr>c_pieces := flipPiece me fid (c_pieces st1),
                        nextBatch := nextBatch st1 @ [fid]\<rparr>
               else st1))"

text \<open>Pick first; clamp is consulted only when pick found nothing.\<close>

definition centerTargets :: "Pieces \<Rightarrow> NodeId \<Rightarrow> Player \<Rightarrow> error + NodeId list" where
  "centerTargets ps centerId me =
     (let pickTargets = checkPick ps centerId me
      in if length pickTargets > 0 then Inr pickTargets
         else checkClamp ps centerId me)"

definition processCenter :: "Player \<Rightarrow> CaptureState \<Rightarrow> NodeId \<Rightarrow> error + CaptureState" where
  "processCenter me st centerId =
     (if centerId \<in> processedNodes st then Inr st
      else (let st1 = st\<lparr>processedNodes := insert centerId (processedNodes st)\<rparr>
            in case centerTargets (c_pieces st1) centerId me of
                 Inl e \<Rightarrow> Inl e
               | Inr flipped \<Rightarrow> Inr (foldl (applyFlip me) st1 flipped)))"

definition capturePass ::
  "Player \<Rightarrow> Pieces \<Rightarrow> NodeId list \<Rightarrow> NodeId set \<Rightarrow> NodeId list \<Rightarrow> error + CaptureState" where
  "capturePass me ps tot processed activeNodes =
     foldE (processCenter me)
       \<lparr>c_pieces = ps, totalCaptures = tot, currentStepFlips = [], nextBatch = [],
        processedNodes = processed\<rparr> activeNodes"


text \<open>
  Termination of the \<open>while\<close> loop: every node pushed on \<open>nextBatch\<close> is a key of the
  virtual board that was not yet in \<open>totalCaptures\<close> and is added to it.
\<close>

definition uncaptured :: "Pieces \<Rightarrow> NodeId list \<Rightarrow> nat" where
  "uncaptured ps tot = card (fst ` set ps - set tot)"

lemma keys_flipPiece: "fst ` set (flipPiece p n ps) = fst ` set ps"
proof (cases "map_of ps n")
  case None
  then show ?thesis by (simp add: flipPiece_def)
next
  case (Some pc)
  then have "n \<in> dom (map_of ps)" by auto
  then have "dom (map_of (AList.update n (pc\<lparr>player := p\<rparr>) ps)) = dom (map_of ps)"
    by (auto simp: update_conv')
  then show ?thesis using Some
    by (simp add: flipPiece_def dom_map_of_conv_image_fst)
qed

lemma applyFlip_measure:
  "uncaptured (c_pieces (applyFlip me st fid)) (totalCaptures (applyFlip me st fid))
     + length (nextBatch (applyFlip me st fid))
   \<le> uncaptured (c_pieces st) (totalCaptures st) + length (nextBatch st)"
proof (cases "fid \<in> set (totalCaptures st)")
  case True
  then show ?thesis by (simp add: applyFlip_def)
next
  case notin: False
  show ?thesis
  proof (cases "map_of (c_pieces st) fid")
    case None
    then have "fid \<notin> fst ` set (c_pieces st)"
      by (simp add: map_of_eq_None_iff)
    then have "fst ` set (c_pieces st) - set (totalCaptures st @ [fid])
               = fst ` set (c_pieces st) - set (totalCaptures st)"
      by auto
    with notin None show ?thesis by (simp add: applyFlip_def uncaptured_def Let_def)
  next
    case (Some pc)
    then have "(fid, pc) \<in> set (c_pieces st)" by (rule map_of_SomeD)
    then have "fid \<in> fst ` set (c_pieces st)" by force
    then have mem: "fid \<in> fst ` set (c_pieces st) - set (totalCaptures st)"
      using notin by simp
    have eq: "fst ` set (c_pieces st) - set (totalCaptures st @ [fid])
              = (fst ` set (c_pieces st) - set (totalCaptures st)) - {fid}"
      by auto
    have "card ((fst ` set (c_pieces st) - set (totalCaptures st)) - {fid}) + 1
          = card (fst ` set (c_pieces st) - set (totalCaptures st))"
      using mem card_Suc_Diff1 [of "fst ` set (c_pieces st) - set (totalCaptures st)" fid]
      by simp
    with notin Some eq show ?thesis
      by (simp add: applyFlip_def uncaptured_def Let_def keys_flipPiece)
  qed
qed

lemma foldl_applyFlip_measure:
  "uncaptured (c_pieces (foldl (applyFlip me) st fs)) (totalCaptures (foldl (applyFlip me) st fs))
     + length (nextBatch (foldl (applyFlip me) st fs))
   \<le> uncaptured (c_pieces st) (totalCaptures st) + length (nextBatch st)"
proof (induction fs arbitrary: st)
  case Nil
  then show ?case by simp
next
  case (Cons f fs)
  show ?case using Cons.IH [of "applyFlip me st f"] applyFlip_measure [of me st f]
    by simp
qed

lemma processCenter_measure:
  assumes "processCenter me st c = Inr st'"
  shows "uncaptured (c_pieces st') (totalCaptures st') + length (nextBatch st')
         \<le> uncaptured (c_pieces st) (totalCaptures st) + length (nextBatch st)"
proof (cases "c \<in> processedNodes st")
  case True
  with assms show ?thesis by (simp add: processCenter_def)
next
  case False
  with assms obtain fl where
    "st' = foldl (applyFlip me) (st\<lparr>processedNodes := insert c (processedNodes st)\<rparr>) fl"
    by (auto simp: processCenter_def Let_def split: sum.splits)
  then show ?thesis
    using foldl_applyFlip_measure [of me "st\<lparr>processedNodes := insert c (processedNodes st)\<rparr>" fl]
    by simp
qed

lemma foldE_processCenter_measure:
  "foldE (processCenter me) st cs = Inr st' \<Longrightarrow>
   uncaptured (c_pieces st') (totalCaptures st') + length (nextBatch st')
   \<le> uncaptured (c_pieces st) (totalCaptures st) + length (nextBatch st)"
proof (induction cs arbitrary: st)
  case Nil
  then show ?case by simp
next
  case (Cons c cs)
  from Cons.prems obtain st1 where
    s1: "processCenter me st c = Inr st1" and s2: "foldE (processCenter me) st1 cs = Inr st'"
    by (auto split: sum.splits)
  show ?case using Cons.IH [OF s2] processCenter_measure [OF s1] by linarith
qed

lemma capturePass_measure:
  "capturePass me ps tot processed act = Inr st \<Longrightarrow>
   uncaptured (c_pieces st) (totalCaptures st) + length (nextBatch st) \<le> uncaptured ps tot"
  using foldE_processCenter_measure
    [of me "\<lparr>c_pieces = ps, totalCaptures = tot, currentStepFlips = [], nextBatch = [],
             processedNodes = processed\<rparr>" act st]
  by (simp add: capturePass_def)

function cascade ::
  "Player \<Rightarrow> Pieces \<Rightarrow> NodeId list \<Rightarrow> NodeId list \<Rightarrow> NodeId list list \<Rightarrow> NodeId set
     \<Rightarrow> error + (NodeId list \<times> NodeId list list)" where
  "cascade me ps activeNodes tot steps processed =
     (if length activeNodes > 0
      then (case capturePass me ps tot processed activeNodes of
              Inl e \<Rightarrow> Inl e
            | Inr st \<Rightarrow>
                cascade me (c_pieces st) (nextBatch st) (totalCaptures st)
                  (if length (currentStepFlips st) > 0 then steps @ [currentStepFlips st]
                   else steps)
                  (processedNodes st))
      else Inr (tot, steps))"
  by pat_completeness auto
termination
proof (relation "measure (\<lambda>(me, ps, act, tot, steps, processed).
          uncaptured ps tot + (if act = [] then 0 else 1))", goal_cases)
  case 1
  then show ?case by simp
next
  case (2 me ps activeNodes tot steps processed st)
  then show ?case using capturePass_measure [of me ps tot processed activeNodes st]
    by (cases "nextBatch st") auto
qed

declare cascade.simps [simp del]

text \<open>
  The virtual board after the move. \<open>mover\<close> is \<open>undefined\<close> when \<open>from\<close> holds no
  piece; the source then stores \<open>undefined\<close> under \<open>to\<close>, which every read in this
  function (\<open>pieces[n]?.player\<close>, \<open>if (pieces[fid])\<close>) treats as an empty node.
\<close>

definition virtualBoard :: "Pieces \<Rightarrow> NodeId \<Rightarrow> NodeId \<Rightarrow> Pieces" where
  "virtualBoard ps from to =
     (case map_of ps from of
        None \<Rightarrow> AList.delete to (AList.delete from ps)
      | Some mover \<Rightarrow> AList.update to mover (AList.delete from ps))"

definition calculateRecursiveCaptures ::
  "GameState \<Rightarrow> NodeId \<Rightarrow> NodeId \<Rightarrow> error + (NodeId list \<times> NodeId list list)" where
  "calculateRecursiveCaptures initialState from to =
     cascade (currentPlayer initialState) (virtualBoard (pieces initialState) from to)
       [to] [] [] {}"

subsection \<open>getValidMoves\<close>

fun findNextInLine :: "NodeId \<Rightarrow> NodeId \<Rightarrow> NodeId list \<Rightarrow> NodeId option" where
  "findNextInLine prevId currentId [] = None"
| "findNextInLine prevId currentId (nextId # rest) =
     (if nextId = prevId then findNextInLine prevId currentId rest
      else if areCollinear prevId currentId nextId then Some nextId
      else findNextInLine prevId currentId rest)"

text \<open>
  The sliding loop \<open>for (let i = 0; i < 10; i++)\<close>; the result is what it pushes on
  \<open>potentialDestinations\<close>. \<open>nextInLine && \<dots>\<close> is false for \<open>null\<close> and for the empty
  string.
\<close>

function slide :: "nat \<Rightarrow> Pieces \<Rightarrow> NodeId \<Rightarrow> NodeId \<Rightarrow> error + NodeId list" where
  "slide i ps prevId currentId =
     (if i < 10
      then (case map_of BOARD_NODES currentId of
              None \<Rightarrow> Inl TypeError
            | Some currNode \<Rightarrow>
                (case findNextInLine prevId currentId (neighbors currNode) of
                   None \<Rightarrow> Inr []
                 | Some nextInLine \<Rightarrow>
                     if nextInLine \<noteq> [] \<and> map_of ps nextInLine = None
                     then (case slide (i + 1) ps currentId nextInLine of
                             Inl e \<Rightarrow> Inl e
                           | Inr ds \<Rightarrow> Inr (nextInLine # ds))
                     else Inr []))
      else Inr [])"
  by pat_completeness auto
termination
  by (relation "measure (\<lambda>(i, ps, prevId, currentId). 10 - i)") auto

declare slide.simps [simp del]

definition destinationsVia :: "Pieces \<Rightarrow> NodeId \<Rightarrow> NodeId \<Rightarrow> error + NodeId list" where
  "destinationsVia ps fromId neighborId =
     (if map_of ps neighborId = None
      then (case slide 0 ps fromId neighborId of
              Inl e \<Rightarrow> Inl e
            | Inr ds \<Rightarrow> Inr (neighborId # ds))
      else Inr [])"

definition moveTo :: "GameState \<Rightarrow> NodeId \<Rightarrow> NodeId \<Rightarrow> error + Move list" where
  "moveTo state fromId toId =
     (case calculateRecursiveCaptures state fromId toId of
        Inl e \<Rightarrow> Inl e
      | Inr (allCaptures, steps) \<Rightarrow>
          Inr [\<lparr>fromN = fromId, toN = toId, captures = Some allCaptures,
                captureSteps = Some steps\<rparr>])"

definition getValidMoves :: "GameState \<Rightarrow> NodeId \<Rightarrow> error + Move list" where
  "getValidMoves state fromId =
     (case map_of (pieces state) fromId of
        None \<Rightarrow> Inr []
      | Some piece \<Rightarrow>
          if player piece \<noteq> currentPlayer state then Inr []
          else (case map_of BOARD_NODES fromId of
                  None \<Rightarrow> Inl TypeError
                | Some startNode \<Rightarrow>
                    (case collect (destinationsVia (pieces state) fromId) (neighbors startNode) of
                       Inl e \<Rightarrow> Inl e
                     | Inr potentialDestinations \<Rightarrow>
                         collect (moveTo state fromId) potentialDestinations)))"


section \<open>Initial state and win condition (utils.ts)\<close>

definition getInitialState :: GameState where
  "getInitialState =
     \<lparr>pieces =
        foldl (\<lambda>ps c. AList.update (''4,'' @ showNat c)
                 \<lparr>piece_id = ''w-'' @ showNat c, player = White\<rparr> ps)
          (foldl (\<lambda>ps c. AList.update (''0,'' @ showNat c)
                   \<lparr>piece_id = ''b-'' @ showNat c, player = Black\<rparr> ps)
             [] [0..<5])
          [0..<5],
      currentPlayer = Black, winner = None, history = [], turnCount = 0\<rparr>"

definition maoceIds :: "NodeId list" where
  "maoceIds = map node_id (filter isMaoce (map snd BOARD_NODES))"

definition isAllInMaoce :: "GameState \<Rightarrow> Player \<Rightarrow> bool" where
  "isAllInMaoce state p =
     (let playerPieces = filter (\<lambda>(nodeId, pc). player pc = p) (pieces state)
      in if length playerPieces = 0 then False
         else list_all (\<lambda>(nodeId, pc). nodeId \<in> set maoceIds) playerPieces)"

definition checkWinCondition :: "GameState \<Rightarrow> Player option" where
  "checkWinCondition state =
     (let blackCount = length (filter (\<lambda>pc. player pc = Black) (map snd (pieces state)));
          whiteCount = length (filter (\<lambda>pc. player pc = White) (map snd (pieces state)))
      in if blackCount = 0 then Some White
         else if whiteCount = 0 then Some Black
         else if isAllInMaoce state Black then Some White
         else if isAllInMaoce state White then Some Black
         else None)"

section \<open>Playing a move (page.tsx)\<close>

text \<open>
  \<open>executeMove\<close>, without its animation delays: the piece is moved, the capture
  groups of \<open>move.captureSteps\<close> are applied one after the other, then the winner is
  computed and the turn passes. As in \<open>simulateMove\<close>, a move whose source holds no
  piece ends in the \<open>TypeError\<close> of \<open>checkWinCondition\<close>.
\<close>

definition executeMove :: "GameState \<Rightarrow> Move \<Rightarrow> error + GameState" where
  "executeMove gameState move =
     (case map_of (pieces gameState) (fromN move) of
        None \<Rightarrow> Inl TypeError
      | Some movingPiece \<Rightarrow>
          (let nextPlayer = (if currentPlayer gameState = Black then White else Black);
               currentPieces = AList.update (toN move) movingPiece
                                 (AList.delete (fromN move) (pieces gameState));
               currentHistory = history gameState
                  @ [\<lparr>snap_pieces = pieces gameState,
                      snap_currentPlayer = currentPlayer gameState\<rparr>];
               currentPieces' =
                 (case captureSteps move of
                    None \<Rightarrow> currentPieces
                  | Some steps \<Rightarrow>
                      if length steps > 0
                      then foldl (\<lambda>ps step.
                                    foldl (\<lambda>ps capId. flipPiece (currentPlayer gameState) capId ps)
                                      ps step)
                             currentPieces steps
                      else currentPieces);
               winner = checkWinCondition (gameState\<lparr>pieces := currentPieces'\<rparr>)
           in Inr (gameState\<lparr>pieces := currentPieces',
                              history := currentHistory,
                              currentPlayer := nextPlayer,
                              winner := winner,
                              turnCount := turnCount gameState + 1\<rparr>)))"

section \<open>Search (ai.ts)\<close>

text \<open>JavaScript numbers as far as the search uses them: integers and the two infinities.\<close>

datatype Score = NegInf | Fin int | PosInf

instantiation Score :: linorder
begin

fun less_eq_Score :: "Score \<Rightarrow> Score \<Rightarrow> bool" where
  "less_eq_Score NegInf b = True"
| "less_eq_Score (Fin a) NegInf = False"
| "less_eq_Score (Fin a) (Fin b) = (a \<le> b)"
| "less_eq_Score (Fin a) PosInf = True"
| "less_eq_Score PosInf b = (b = PosInf)"

definition less_Score :: "Score \<Rightarrow> Score \<Rightarrow> bool" where
  "less_Score a b = (a \<le> b \<and> \<not> b \<le> a)"

instance
proof
  fix x y z :: Score
  show "(x < y) = (x \<le> y \<and> \<not> y \<le> x)" by (simp add: less_Score_def)
  show "x \<le> x" by (cases x) auto
  show "x \<le> y \<Longrightarrow> y \<le> z \<Longrightarrow> x \<le> z" by (cases x; cases y; cases z) auto
  show "x \<le> y \<Longrightarrow> y \<le> x \<Longrightarrow> x = y" by (cases x; cases y) auto
  show "x \<le> y \<or> y \<le> x" by (cases x; cases y) auto
qed

end

definition WIN :: int where "WIN = 10000"
definition LOSS :: int where "LOSS = - 10000"
definition PIECE_VALUE :: int where "PIECE_VALUE = 100"
definition MAOCE_PENALTY :: int where "MAOCE_PENALTY = - 500"
definition MOBILITY_VALUE :: int where "MOBILITY_VALUE = 5"

definition evalPiece :: "Player \<Rightarrow> int \<Rightarrow> NodeId \<times> Piece \<Rightarrow> error + int" where
  "evalPiece aiPlayer score entry =
     (case entry of (nodeId, piece) \<Rightarrow>
        (case map_of BOARD_NODES nodeId of
           None \<Rightarrow> Inl TypeError
         | Some node \<Rightarrow>
             if player piece = aiPlayer
             then Inr (if isMaoce node then score + PIECE_VALUE + MAOCE_PENALTY
                       else score + PIECE_VALUE)
             else Inr (if isMaoce node then score - PIECE_VALUE - MAOCE_PENALTY
                       else score - PIECE_VALUE)))"

definition evaluate :: "GameState \<Rightarrow> Player \<Rightarrow> error + Score" where
  "evaluate state aiPlayer =
     (let winner = checkWinCondition state
      in if winner = Some aiPlayer then Inr (Fin WIN)
         else if winner \<noteq> None \<and> winner \<noteq> Some aiPlayer then Inr (Fin LOSS)
         else (case foldE (evalPiece aiPlayer) 0 (pieces state) of
                 Inl e \<Rightarrow> Inl e
               | Inr score \<Rightarrow> Inr (Fin score)))"

definition getAllMoves :: "GameState \<Rightarrow> Player \<Rightarrow> error + Move list" where
  "getAllMoves state p =
     collect (\<lambda>(nodeId, piece). if player piece = p then getValidMoves state nodeId else Inr [])
       (pieces state)"

text \<open>
  \<open>simulateMove\<close>. When \<open>move.from\<close> holds no piece the source stores \<open>undefined\<close>
  under \<open>move.to\<close>, a value outside \<open>Record<NodeId, Piece>\<close>; both callers pass the
  state on to \<open>minimax\<close>, whose first statement (\<open>checkWinCondition\<close>, reading
  \<open>p.player\<close> of every value) then throws. The model raises that \<open>TypeError\<close> here.
\<close>

definition simulateMove :: "GameState \<Rightarrow> Move \<Rightarrow> error + GameState" where
  "simulateMove state move =
     (case map_of (pieces state) (fromN move) of
        None \<Rightarrow> Inl TypeError
      | Some movingPiece \<Rightarrow>
          (let newPieces = AList.update (toN move) movingPiece
                             (AList.delete (fromN move) (pieces state));
               newPieces' = (case captures move of
                               None \<Rightarrow> newPieces
                             | Some caps \<Rightarrow>
                                 foldl (\<lambda>ps capId. flipPiece (currentPlayer state) capId ps)
                                   newPieces caps)
           in Inr (state\<lparr>pieces := newPieces',
                          currentPlayer := (if currentPlayer state = Black then White else Black),
                          history := [],
                          turnCount := turnCount state + 1,
                          winner := None\<rparr>)))"

fun maxLoop ::
  "(GameState \<Rightarrow> Score \<Rightarrow> Score \<Rightarrow> error + Score) \<Rightarrow> GameState \<Rightarrow> Move list
     \<Rightarrow> Score \<Rightarrow> Score \<Rightarrow> Score \<Rightarrow> error + Score" where
  "maxLoop child state [] maxEval alpha beta = Inr maxEval"
| "maxLoop child state (move # rest) maxEval alpha beta =
     (case simulateMove state move of
        Inl e \<Rightarrow> Inl e
      | Inr nextState \<Rightarrow>
          (case child nextState alpha beta of
             Inl e \<Rightarrow> Inl e
           | Inr evalScore \<Rightarrow>
               (let maxEval' = max maxEval evalScore; alpha' = max alpha evalScore
                in if beta \<le> alpha' then Inr maxEval'
                   else maxLoop child state rest maxEval' alpha' beta)))"

fun minLoop ::
  "(GameState \<Rightarrow> Score \<Rightarrow> Score \<Rightarrow> error + Score) \<Rightarrow> GameState \<Rightarrow> Move list
     \<Rightarrow> Score \<Rightarrow> Score \<Rightarrow> Score \<Rightarrow> error + Score" where
  "minLoop child state [] minEval alpha beta = Inr minEval"
| "minLoop child state (move # rest) minEval alpha beta =
     (case simulateMove state move of
        Inl e \<Rightarrow> Inl e
      | Inr nextState \<Rightarrow>
          (case child nextState alpha beta of
             Inl e \<Rightarrow> Inl e
           | Inr evalScore \<Rightarrow>
               (let minEval' = min minEval evalScore; beta' = min beta evalScore
                in if beta' \<le> alpha then Inr minEval'
                   else minLoop child state rest minEval' alpha beta')))"

text \<open>
  \<open>minimax\<close>; the first argument is the number of stack frames left for the recursion
  (\<open>depth === 0\<close> is the only depth test, so a negative depth recurses until a winner,
  a position without moves, or the end of the stack).
\<close>

fun minimax ::
  "nat \<Rightarrow> GameState \<Rightarrow> int \<Rightarrow> bool \<Rightarrow> Score \<Rightarrow> Score \<Rightarrow> Player \<Rightarrow> error + Score" where
  "minimax 0 state depth isMaximizing alpha beta aiPlayer = Inl RangeError"
| "minimax (Suc frames) state depth isMaximizing alpha beta aiPlayer =
     (if checkWinCondition state \<noteq> None \<or> depth = 0 then evaluate state aiPlayer
      else (let currPlayer = (if isMaximizing then aiPlayer
                              else (if aiPlayer = Black then White else Black))
            in case getAllMoves state currPlayer of
                 Inl e \<Rightarrow> Inl e
               | Inr moves \<Rightarrow>
                   if length moves = 0 then evaluate state aiPlayer
                   else if isMaximizing
                   then maxLoop (\<lambda>s a b. minimax frames s (depth - 1) False a b aiPlayer)
                          state moves NegInf alpha beta
                   else minLoop (\<lambda>s a b. minimax frames s (depth - 1) True a b aiPlayer)
                          state moves PosInf alpha beta))"

definition captureCount :: "Move \<Rightarrow> nat" where
  \<comment> \<open>\<open>m.captures?.length || 0\<close>\<close>
  "captureCount m = (case captures m of None \<Rightarrow> 0 | Some cs \<Rightarrow> length cs)"

definition sortMoves :: "Move list \<Rightarrow> Move list" where
  \<comment> \<open>\<open>Array.prototype.sort\<close> is stable; the comparator orders by descending capture count\<close>
  "sortMoves moves = sort_key (\<lambda>m. - int (captureCount m)) moves"

fun bestLoop ::
  "(GameState \<Rightarrow> error + Score) \<Rightarrow> GameState \<Rightarrow> Move list \<Rightarrow> Move option \<Rightarrow> Score
     \<Rightarrow> error + (Move option \<times> Score)" where
  "bestLoop child state [] bestMove bestScore = Inr (bestMove, bestScore)"
| "bestLoop child state (move # rest) bestMove bestScore =
     (case simulateMove state move of
        Inl e \<Rightarrow> Inl e
      | Inr nextState \<Rightarrow>
          (case child nextState of
             Inl e \<Rightarrow> Inl e
           | Inr score \<Rightarrow>
               if score > bestScore then bestLoop child state rest (Some move) score
               else bestLoop child state rest bestMove bestScore))"

text \<open>The loop of \<open>getBestMove\<close>, returning both locals \<open>(bestMove, bestScore)\<close>.\<close>

definition bestSearch ::
  "nat \<Rightarrow> GameState \<Rightarrow> int \<Rightarrow> Player \<Rightarrow> error + (Move option \<times> Score)" where
  "bestSearch frames state depth aiPlayer =
     (case getAllMoves state aiPlayer of
        Inl e \<Rightarrow> Inl e
      | Inr moves \<Rightarrow>
          bestLoop (\<lambda>s. minimax frames s (depth - 1) False NegInf PosInf aiPlayer)
            state (sortMoves moves) None NegInf)"

definition getBestMove :: "nat \<Rightarrow> GameState \<Rightarrow> int \<Rightarrow> Player \<Rightarrow> error + Move option" where
  "getBestMove frames state depth aiPlayer =
     (case bestSearch frames state depth aiPlayer of
        Inl e \<Rightarrow> Inl e
      | Inr (bestMove, bestScore) \<Rightarrow> Inr bestMove)"

section \<open>Notions used in the statements\<close>

fun upperPairs :: "'a list \<Rightarrow> ('a \<times> 'a) list" where
  "upperPairs [] = []"
| "upperPairs (x # xs) = map (Pair x) xs @ upperPairs xs"

definition pickPair :: "Pieces \<Rightarrow> NodeId \<Rightarrow> Player \<Rightarrow> NodeId \<Rightarrow> NodeId \<Rightarrow> NodeId list" where
  "pickPair ps center opp n1 n2 =
     (if areCollinear n1 center n2 \<and> playerAt ps n1 = Some opp \<and> playerAt ps n2 = Some opp
      then [n1, n2] else [])"

definition dashFree :: "NodeId list \<Rightarrow> bool" where
  "dashFree ns = (\<forall>n\<in>set ns. CHR ''-'' \<notin> set n)"

definition seenKeys :: "NodeId list \<Rightarrow> NodeId list \<Rightarrow> string set" where
  "seenKeys P N = (\<Union>a\<in>set P. pairKey a ` (set N - {a}))"

text \<open>The invariant of one pass of the cascade for the move \<open>fr \<rightarrow> to\<close> of player \<open>me\<close>.\<close>

definition capInv :: "Player \<Rightarrow> NodeId \<Rightarrow> NodeId \<Rightarrow> NodeId list \<Rightarrow> CaptureState \<Rightarrow> bool" where
  "capInv me fr to tot0 st \<longleftrightarrow>
     totalCaptures st = tot0 @ currentStepFlips st \<and> distinct (totalCaptures st)
     \<and> fr \<notin> set (totalCaptures st) \<and> to \<notin> set (totalCaptures st)
     \<and> playerAt (c_pieces st) to = Some me \<and> map_of (c_pieces st) fr = None"

definition neighborsOf :: "NodeId \<Rightarrow> NodeId list" where
  "neighborsOf n = (case map_of BOARD_NODES n of None \<Rightarrow> [] | Some nd \<Rightarrow> neighbors nd)"

fun chainOk :: "Pieces \<Rightarrow> NodeId \<Rightarrow> NodeId \<Rightarrow> NodeId list \<Rightarrow> bool" where
  "chainOk ps prev cur [] = True"
| "chainOk ps prev cur (n # rest) =
     (n \<in> set (neighborsOf cur) \<and> n \<noteq> prev \<and> areCollinear prev cur n
      \<and> map_of ps n = None \<and> chainOk ps cur n rest)"

definition validSlide :: "Pieces \<Rightarrow> NodeId \<Rightarrow> NodeId list \<Rightarrow> bool" where
  "validSlide ps fromId path =
     (case path of
        [] \<Rightarrow> False
      | b # rest \<Rightarrow> b \<in> set (neighborsOf fromId) \<and> map_of ps b = None \<and> chainOk ps fromId b rest)"

text \<open>
  Plain depth-limited minimax over the same move generator: every child is searched, in
  generation order, with no window and no cut-off.
\<close>

fun childScores ::
  "(GameState \<Rightarrow> error + Score) \<Rightarrow> GameState \<Rightarrow> Move list \<Rightarrow> error + Score list" where
  "childScores child state [] = Inr []"
| "childScores child state (move # rest) =
     (case simulateMove state move of
        Inl e \<Rightarrow> Inl e
      | Inr nextState \<Rightarrow>
          (case child nextState of
             Inl e \<Rightarrow> Inl e
           | Inr v \<Rightarrow>
               (case childScores child state rest of
                  Inl e \<Rightarrow> Inl e
                | Inr vs \<Rightarrow> Inr (v # vs))))"

fun plainMinimax :: "nat \<Rightarrow> GameState \<Rightarrow> int \<Rightarrow> bool \<Rightarrow> Player \<Rightarrow> error + Score" where
  "plainMinimax 0 state depth isMaximizing aiPlayer = Inl RangeError"
| "plainMinimax (Suc frames) state depth isMaximizing aiPlayer =
     (if checkWinCondition state \<noteq> None \<or> depth = 0 then evaluate state aiPlayer
      else (let currPlayer = (if isMaximizing then aiPlayer
                              else (if aiPlayer = Black then White else Black))
            in case getAllMoves state currPlayer of
                 Inl e \<Rightarrow> Inl e
               | Inr moves \<Rightarrow>
                   if length moves = 0 then evaluate state aiPlayer
                   else (case childScores
                                (\<lambda>s. plainMinimax frames s (depth - 1) (\<not> isMaximizing) aiPlayer)
                                state moves of
                           Inl e \<Rightarrow> Inl e
                         | Inr vs \<Rightarrow>
                             Inr (if isMaximizing then foldl max NegInf vs
                                  else foldl min PosInf vs))))"

definition plainBestScore :: "nat \<Rightarrow> GameState \<Rightarrow> int \<Rightarrow> Player \<Rightarrow> error + Score" where
  "plainBestScore frames state depth aiPlayer =
     (case getAllMoves state aiPlayer of
        Inl e \<Rightarrow> Inl e
      | Inr moves \<Rightarrow>
          (case childScores (\<lambda>s. plainMinimax frames s (depth - 1) False aiPlayer) state moves of
             Inl e \<Rightarrow> Inl e
           | Inr vs \<Rightarrow> Inr (foldl max NegInf vs)))"

text \<open>The value \<open>x\<close> seen through the window \<open>(a, b)\<close>.\<close>

definition window :: "'a :: linorder \<Rightarrow> 'a \<Rightarrow> 'a \<Rightarrow> 'a" where
  "window a b x = max a (min x b)"

text \<open>
  What the loops need from the recursive call: on the successor of each move it returns,
  for every non-empty window, a score that agrees with the reference value through the
  window.
\<close>

definition childOk ::
  "(GameState \<Rightarrow> Score \<Rightarrow> Score \<Rightarrow> error + Score) \<Rightarrow> GameState \<Rightarrow> Move \<Rightarrow> Score \<Rightarrow> bool" where
  "childOk child s m v \<longleftrightarrow>
     (\<exists>s'. simulateMove s m = Inr s'
        \<and> (\<forall>a b. a < b \<longrightarrow> (\<exists>r. child s' a b = Inr r \<and> window a b r = window a b v)))"

definition scored :: "(GameState \<Rightarrow> error + Score) \<Rightarrow> GameState \<Rightarrow> Move \<Rightarrow> Score \<Rightarrow> bool" where
  "scored child s m v \<longleftrightarrow> (\<exists>s'. simulateMove s m = Inr s' \<and> child s' = Inr v)"

definition isFin :: "Score \<Rightarrow> bool" where
  "isFin v \<longleftrightarrow> v \<noteq> NegInf \<and> v \<noteq> PosInf"

definition countPieces :: "Pieces \<Rightarrow> Player \<Rightarrow> nat" where
  "countPieces ps p = length (filter (\<lambda>pc. player pc = p) (map snd ps))"

text \<open>Every piece stands on a node of the board.\<close>

definition onBoard :: "Pieces \<Rightarrow> bool" where
  "onBoard ps = list_all (\<lambda>(n, pc). map_of BOARD_NODES n \<noteq> None) ps"

text \<open>The score that the loop of \<open>getBestMove\<close> computes for one move.\<close>

definition rootScore :: "nat \<Rightarrow> GameState \<Rightarrow> int \<Rightarrow> Player \<Rightarrow> Move \<Rightarrow> error + Score" where
  "rootScore frames state depth aiPlayer move =
     (case simulateMove state move of
        Inl e \<Rightarrow> Inl e
      | Inr nextState \<Rightarrow> minimax frames nextState (depth - 1) False NegInf PosInf aiPlayer)"

text \<open>A pick pattern at a centre: two distinct neighbours, collinear through the centre,
  both held by the opponent of \<open>me\<close>.\<close>

definition pickPattern :: "Pieces \<Rightarrow> NodeId \<Rightarrow> Player \<Rightarrow> bool" where
  "pickPattern ps c me \<longleftrightarrow>
     (\<exists>n1\<in>set (neighborsOf c). \<exists>n2\<in>set (neighborsOf c).
        n1 \<noteq> n2 \<and> areCollinear n1 c n2
        \<and> playerAt ps n1 = Some (getOpponent me) \<and> playerAt ps n2 = Some (getOpponent me))"

text \<open>The nodes that hold a piece of a player, and the trap nodes of the topology.\<close>

definition piecesOf :: "GameState \<Rightarrow> Player \<Rightarrow> NodeId set" where
  "piecesOf state p = {n. \<exists>pc. (n, pc) \<in> set (pieces state) \<and> player pc = p}"

definition trapNodes :: "NodeId set" where
  "trapNodes = {n. \<exists>nd. map_of BOARD_NODES n = Some nd \<and> isMaoce nd}"

subsection \<open>Positions used as examples\<close>

definition blackPiece :: Piece where "blackPiece = \<lparr>piece_id = ''b'', player = Black\<rparr>"

definition whitePiece :: Piece where "whitePiece = \<lparr>piece_id = ''w'', player = White\<rparr>"

definition chainState :: GameState where
  "chainState =
     \<lparr>pieces = [(''m_right'', blackPiece), (''m_bottom'', blackPiece), (''2,3'', blackPiece),
                (''m_center'', whitePiece), (''2,4'', whitePiece)],
      currentPlayer = Black, winner = None, history = [], turnCount = 0\<rparr>"

definition chainMove :: Move where
  "chainMove = \<lparr>fromN = ''m_right'', toN = ''m_top'', captures = Some [''m_center'', ''2,4''],
                 captureSteps = Some [[''m_center''], [''2,4'']]\<rparr>"

definition tieState :: GameState where
  "tieState =
     \<lparr>pieces = [(''1,4'', blackPiece), (''m_bottom'', blackPiece),
                (''2,4'', whitePiece), (''m_right'', whitePiece)],
      currentPlayer = Black, winner = None, history = [], turnCount = 0\<rparr>"

definition tieMoves :: "Move list" where
  "tieMoves =
     [\<lparr>fromN = ''1,4'', toN = ''0,4'', captures = Some [], captureSteps = Some []\<rparr>,
      \<lparr>fromN = ''1,4'', toN = ''1,3'', captures = Some [''2,4''], captureSteps = Some [[''2,4'']]\<rparr>,
      \<lparr>fromN = ''1,4'', toN = ''1,2'', captures = Some [], captureSteps = Some []\<rparr>,
      \<lparr>fromN = ''1,4'', toN = ''1,1'', captures = Some [], captureSteps = Some []\<rparr>,
      \<lparr>fromN = ''1,4'', toN = ''1,0'', captures = Some [], captureSteps = Some []\<rparr>,
      \<lparr>fromN = ''m_bottom'', toN = ''m_center'', captures = Some [''2,4'', ''m_right''],
        captureSteps = Some [[''2,4'', ''m_right'']]\<rparr>,
      \<lparr>fromN = ''m_bottom'', toN = ''m_top'', captures = Some [], captureSteps = Some []\<rparr>]"

definition pickClampPieces :: Pieces where
  "pickClampPieces =
     [(''1,2'', blackPiece), (''1,1'', whitePiece), (''1,3'', whitePiece),
      (''2,2'', whitePiece), (''3,2'', blackPiece)]"

definition clampOnlyPieces :: Pieces where
  "clampOnlyPieces = [(''1,2'', blackPiece), (''2,2'', whitePiece), (''3,2'', blackPiece)]"

definition confinedState :: GameState where
  "confinedState =
     \<lparr>pieces = [(''m_top'', whitePiece), (''m_center'', whitePiece), (''2,4'', blackPiece)],
      currentPlayer = White, winner = None, history = [], turnCount = 7\<rparr>"

definition eliminatedState :: GameState where
  "eliminatedState =
     \<lparr>pieces = [(''m_top'', blackPiece), (''m_center'', blackPiece)],
      currentPlayer = White, winner = None, history = [], turnCount = 9\<rparr>"

definition sweptState :: GameState where
  "sweptState =
     \<lparr>pieces = [(''m_top'', whitePiece)],
      currentPlayer = Black, winner = None, history = [], turnCount = 9\<rparr>"

section \<open>The board as a table\<close>

lemma node_lookup:
  "map_of BOARD_NODES ''0,0'' = Some \<lparr>node_id = ''0,0'', node_x = 0, node_y = 0, neighbors = [''0,1'', ''1,0'', ''1,1''], isMaoce = False\<rparr>"
  "map_of BOARD_NODES ''0,1'' = Some \<lparr>node_id = ''0,1'', node_x = 100, node_y = 0, neighbors = [''0,0'', ''0,2'', ''1,1''], isMaoce = False\<rparr>"
  "map_of BOARD_NODES ''0,2'' = Some \<lparr>node_id = ''0,2'', node_x = 200, node_y = 0, neighbors = [''0,1'', ''0,3'', ''1,2'', ''1,1'', ''1,3''], isMaoce = False\<rparr>"
  "map_of BOARD_NODES ''0,3'' = Some \<lparr>node_id = ''0,3'', node_x = 300, node_y = 0, neighbors = [''0,2'', ''0,4'', ''1,3''], isMaoce = False\<rparr>"
  "map_of BOARD_NODES ''0,4'' = Some \<lparr>node_id = ''0,4'', node_x = 400, node_y = 0, neighbors = [''0,3'', ''1,4'', ''1,3''], isMaoce = False\<rparr>"
  "map_of BOARD_NODES ''1,0'' = Some \<lparr>node_id = ''1,0'', node_x = 0, node_y = 100, neighbors = [''0,0'', ''1,1'', ''2,0''], isMaoce = False\<rparr>"
  "map_of BOARD_NODES ''1,1'' = Some \<lparr>node_id = ''1,1'', node_x = 100, node_y = 100, neighbors = [''0,1'', ''1,0'', ''1,2'', ''2,1'', ''0,0'', ''0,2'', ''2,0'', ''2,2''], isMaoce = False\<rparr>"
  "map_of BOARD_NODES ''1,2'' = Some \<lparr>node_id = ''1,2'', node_x = 200, node_y = 100, neighbors = [''0,2'', ''1,1'', ''1,3'', ''2,2''], isMaoce = False\<rparr>"
  "map_of BOARD_NODES ''1,3'' = Some \<lparr>node_id = ''1,3'', node_x = 300, node_y = 100, neighbors = [''0,3'', ''1,2'', ''1,4'', ''2,3'', ''0,2'', ''0,4'', ''2,2'', ''2,4''], isMaoce = False\<rparr>"
  "map_of BOARD_NODES ''1,4'' = Some \<lparr>node_id = ''1,4'', node_x = 400, node_y = 100, neighbors = [''0,4'', ''1,3'', ''2,4''], isMaoce = False\<rparr>"
  "map_of BOARD_NODES ''2,0'' = Some \<lparr>node_id = ''2,0'', node_x = 0, node_y = 200, neighbors = [''1,0'', ''2,1'', ''3,0'', ''1,1'', ''3,1''], isMaoce = False\<rparr>"
  "map_of BOARD_NODES ''2,1'' = Some \<lparr>node_id = ''2,1'', node_x = 100, node_y = 200, neighbors = [''1,1'', ''2,0'', ''2,2'', ''3,1''], isMaoce = False\<rparr>"
  "map_of BOARD_NODES ''2,2'' = Some \<lparr>node_id = ''2,2'', node_x = 200, node_y = 200, neighbors = [''1,2'', ''2,1'', ''2,3'', ''3,2'', ''1,1'', ''1,3'', ''3,1'', ''3,3''], isMaoce = False\<rparr>"
  "map_of BOARD_NODES ''2,3'' = Some \<lparr>node_id = ''2,3'', node_x = 300, node_y = 200, neighbors = [''1,3'', ''2,2'', ''2,4'', ''3,3''], isMaoce = False\<rparr>"
  "map_of BOARD_NODES ''2,4'' = Some \<lparr>node_id = ''2,4'', node_x = 400, node_y = 200, neighbors = [''1,4'', ''2,3'', ''3,4'', ''1,3'', ''3,3'', ''m_top'', ''m_bottom'', ''m_center''], isMaoce = False\<rparr>"
  "map_of BOARD_NODES ''3,0'' = Some \<lparr>node_id = ''3,0'', node_x = 0, node_y = 300, neighbors = [''2,0'', ''3,1'', ''4,0''], isMaoce = False\<rparr>"
  "map_of BOARD_NODES ''3,1'' = Some \<lparr>node_id = ''3,1'', node_x = 100, node_y = 300, neighbors = [''2,1'', ''3,0'', ''3,2'', ''4,1'', ''2,0'', ''2,2'', ''4,0'', ''4,2''], isMaoce = False\<rparr>"
  "map_of BOARD_NODES ''3,2'' = Some \<lparr>node_id = ''3,2'', node_x = 200, node_y = 300, neighbors = [''2,2'', ''3,1'', ''3,3'', ''4,2''], isMaoce = False\<rparr>"
  "map_of BOARD_NODES ''3,3'' = Some \<lparr>node_id = ''3,3'', node_x = 300, node_y = 300, neighbors = [''2,3'', ''3,2'', ''3,4'', ''4,3'', ''2,2'', ''2,4'', ''4,2'', ''4,4''], isMaoce = False\<rparr>"
  "map_of BOARD_NODES ''3,4'' = Some \<lparr>node_id = ''3,4'', node_x = 400, node_y = 300, neighbors = [''2,4'', ''3,3'', ''4,4''], isMaoce = False\<rparr>"
  "map_of BOARD_NODES ''4,0'' = Some \<lparr>node_id = ''4,0'', node_x = 0, node_y = 400, neighbors = [''3,0'', ''4,1'', ''3,1''], isMaoce = False\<rparr>"
  "map_of BOARD_NODES ''4,1'' = Some \<lparr>node_id = ''4,1'', node_x = 100, node_y = 400, neighbors = [''3,1'', ''4,0'', ''4,2''], isMaoce = False\<rparr>"
  "map_of BOARD_NODES ''4,2'' = Some \<lparr>node_id = ''4,2'', node_x = 200, node_y = 400, neighbors = [''3,2'', ''4,1'', ''4,3'', ''3,1'', ''3,3''], isMaoce = False\<rparr>"
  "map_of BOARD_NODES ''4,3'' = Some \<lparr>node_id = ''4,3'', node_x = 300, node_y = 400, neighbors = [''3,3'', ''4,2'', ''4,4''], isMaoce = False\<rparr>"
  "map_of BOARD_NODES ''4,4'' = Some \<lparr>node_id = ''4,4'', node_x = 400, node_y = 400, neighbors = [''3,4'', ''4,3'', ''3,3''], isMaoce = False\<rparr>"
  "map_of BOARD_NODES ''m_top'' = Some \<lparr>node_id = ''m_top'', node_x = 500, node_y = 100, neighbors = [''2,4'', ''m_center'', ''m_right''], isMaoce = True\<rparr>"
  "map_of BOARD_NODES ''m_right'' = Some \<lparr>node_id = ''m_right'', node_x = 600, node_y = 200, neighbors = [''m_center'', ''m_top'', ''m_bottom''], isMaoce = True\<rparr>"
  "map_of BOARD_NODES ''m_bottom'' = Some \<lparr>node_id = ''m_bottom'', node_x = 500, node_y = 300, neighbors = [''2,4'', ''m_center'', ''m_right''], isMaoce = True\<rparr>"
  "map_of BOARD_NODES ''m_center'' = Some \<lparr>node_id = ''m_center'', node_x = 500, node_y = 200, neighbors = [''2,4'', ''m_top'', ''m_right'', ''m_bottom''], isMaoce = True\<rparr>"
  by (simp_all add: BOARD_NODES_table)

lemma board_neighbors:
  "\<forall>(k, n)\<in>set BOARD_NODES. distinct (neighbors n) \<and> dashFree (neighbors n)
       \<and> (\<forall>x\<in>set (neighbors n). map_of BOARD_NODES x \<noteq> None)"
  by code_simp

lemma board_node_ok:
  assumes "map_of BOARD_NODES c = Some n"
  shows "distinct (neighbors n)" "dashFree (neighbors n)"
    "\<forall>x\<in>set (neighbors n). map_of BOARD_NODES x \<noteq> None"
  using board_neighbors map_of_SomeD [OF assms] by blast+

section \<open>Pick without the visited set\<close>

lemma split_at_dash:
  "CHR ''-'' \<notin> set x \<Longrightarrow> CHR ''-'' \<notin> set x' \<Longrightarrow>
   x @ CHR ''-'' # y = x' @ CHR ''-'' # y' \<Longrightarrow> x = x' \<and> y = y'"
proof (induction x arbitrary: x')
  case Nil
  then show ?case by (cases x') auto
next
  case (Cons a x)
  then show ?case by (cases x') auto
qed

lemma pairKey_sym: "pairKey a b = pairKey b a"
  by (cases "a = b") (auto simp: pairKey_def)

lemma pairKey_inj:
  assumes "CHR ''-'' \<notin> set a" "CHR ''-'' \<notin> set b" "CHR ''-'' \<notin> set a'" "CHR ''-'' \<notin> set b'"
    and "pairKey a b = pairKey a' b'"
  shows "(a = a' \<and> b = b') \<or> (a = b' \<and> b = a')"
proof -
  obtain x y where xy: "pairKey a b = x @ CHR ''-'' # y" "(x = a \<and> y = b) \<or> (x = b \<and> y = a)"
    by (cases "b < a") (simp_all add: pairKey_def)
  obtain x' y' where xy': "pairKey a' b' = x' @ CHR ''-'' # y'"
      "(x' = a' \<and> y' = b') \<or> (x' = b' \<and> y' = a')"
    by (cases "b' < a'") (simp_all add: pairKey_def)
  have "CHR ''-'' \<notin> set x" "CHR ''-'' \<notin> set x'" using xy(2) xy'(2) assms(1-4) by auto
  moreover have "x @ CHR ''-'' # y = x' @ CHR ''-'' # y'" using xy(1) xy'(1) assms(5) by simp
  ultimately have "x = x' \<and> y = y'" by (rule split_at_dash)
  then show ?thesis using xy(2) xy'(2) by auto
qed

lemma pickInner_same: "pickInner ps c opp a acc a = acc"
  by (cases acc) (simp add: pickInner_def)

lemma pickInner_seen:
  "b \<noteq> a \<Longrightarrow> pairKey a b \<in> V \<Longrightarrow> pickInner ps c opp a (res, V) b = (res, V)"
  by (simp add: pickInner_def)

lemma pickInner_new:
  "b \<noteq> a \<Longrightarrow> pairKey a b \<notin> V \<Longrightarrow>
   pickInner ps c opp a (res, V) b = (res @ pickPair ps c opp a b, insert (pairKey a b) V)"
  by (simp add: pickInner_def pickPair_def)

lemma pickInner_fold:
  assumes "distinct M"
    and "\<forall>b\<in>set M. b \<noteq> a \<longrightarrow> (pairKey a b \<in> V \<longleftrightarrow> b \<in> E)"
    and "\<forall>b\<in>set M. \<forall>b'\<in>set M. pairKey a b = pairKey a b' \<longrightarrow> b = b'"
  shows "foldl (pickInner ps c opp a) (res, V) M =
         (res @ concat (map (pickPair ps c opp a) (filter (\<lambda>b. b \<noteq> a \<and> b \<notin> E) M)),
          V \<union> pairKey a ` (set M - {a}))"
  using assms
proof (induction M arbitrary: res V)
  case Nil
  then show ?case by simp
next
  case (Cons b M)
  have dM: "distinct M" and bM: "b \<notin> set M" using Cons.prems(1) by simp_all
  have inj: "\<forall>x\<in>set M. \<forall>y\<in>set M. pairKey a x = pairKey a y \<longrightarrow> x = y"
    using Cons.prems(3) by simp
  have seenM: "\<forall>x\<in>set M. x \<noteq> a \<longrightarrow> (pairKey a x \<in> V \<longleftrightarrow> x \<in> E)"
    using Cons.prems(2) by simp
  show ?case
  proof (cases "b = a")
    case True
    have st: "set (b # M) - {a} = set M - {a}" using True by auto
    have "foldl (pickInner ps c opp a) (res, V) (b # M) = foldl (pickInner ps c opp a) (res, V) M"
      using True by (simp add: pickInner_same)
    also have "\<dots> = (res @ concat (map (pickPair ps c opp a) (filter (\<lambda>b. b \<noteq> a \<and> b \<notin> E) M)),
          V \<union> pairKey a ` (set M - {a}))"
      by (rule Cons.IH [OF dM seenM inj])
    finally show ?thesis using True st by simp
  next
    case ne: False
    show ?thesis
    proof (cases "pairKey a b \<in> V")
      case True
      have bE: "b \<in> E" using Cons.prems(2) ne True by simp
      have st: "V \<union> pairKey a ` (set (b # M) - {a}) = V \<union> pairKey a ` (set M - {a})"
        using True ne by auto
      have "foldl (pickInner ps c opp a) (res, V) (b # M) = foldl (pickInner ps c opp a) (res, V) M"
        using True ne by (simp add: pickInner_seen)
      also have "\<dots> = (res @ concat (map (pickPair ps c opp a) (filter (\<lambda>b. b \<noteq> a \<and> b \<notin> E) M)),
          V \<union> pairKey a ` (set M - {a}))"
        by (rule Cons.IH [OF dM seenM inj])
      finally show ?thesis using bE st by simp
    next
      case False
      have bE: "b \<notin> E" using Cons.prems(2) ne False by simp
      let ?V = "insert (pairKey a b) V"
      have inv: "\<forall>x\<in>set M. x \<noteq> a \<longrightarrow> (pairKey a x \<in> ?V \<longleftrightarrow> x \<in> E)"
      proof (intro ballI impI)
        fix x assume x: "x \<in> set M" "x \<noteq> a"
        have "x \<noteq> b" using x bM by auto
        moreover have "pairKey a x = pairKey a b \<longrightarrow> x = b"
          using Cons.prems(3) x(1) by simp
        ultimately have "pairKey a x \<noteq> pairKey a b" by blast
        then show "pairKey a x \<in> ?V \<longleftrightarrow> x \<in> E" using seenM x by simp
      qed
      have st: "?V \<union> pairKey a ` (set M - {a}) = V \<union> pairKey a ` (set (b # M) - {a})"
        using ne by auto
      have "foldl (pickInner ps c opp a) (res, V) (b # M)
            = foldl (pickInner ps c opp a) (res @ pickPair ps c opp a b, ?V) M"
        using False ne by (simp add: pickInner_new)
      also have "\<dots> = ((res @ pickPair ps c opp a b)
               @ concat (map (pickPair ps c opp a) (filter (\<lambda>b. b \<noteq> a \<and> b \<notin> E) M)),
             ?V \<union> pairKey a ` (set M - {a}))"
        by (rule Cons.IH [OF dM inv inj])
      finally show ?thesis using bE ne st by simp
    qed
  qed
qed


lemma seenKeys_snoc: "seenKeys (P @ [a]) N = seenKeys P N \<union> pairKey a ` (set N - {a})"
  by (auto simp: seenKeys_def)

lemma filter_later:
  assumes "distinct (P @ a # S)"
  shows "filter (\<lambda>b. b \<noteq> a \<and> b \<notin> set P) (P @ a # S) = S"
proof -
  have "filter (\<lambda>b. b \<noteq> a \<and> b \<notin> set P) P = []" by (simp add: filter_empty_conv)
  moreover have "filter (\<lambda>b. b \<noteq> a \<and> b \<notin> set P) S = S"
    using assms by (auto simp: filter_id_conv)
  ultimately show ?thesis by simp
qed

lemma pickOuter_fold:
  assumes "distinct (P @ S)" and "dashFree (P @ S)"
  shows "foldl (\<lambda>acc n1. foldl (pickInner ps c opp n1) acc (P @ S)) (res, seenKeys P (P @ S)) S =
         (res @ concat (map (\<lambda>(a, b). pickPair ps c opp a b) (upperPairs S)),
          seenKeys (P @ S) (P @ S))"
  using assms
proof (induction S arbitrary: P res)
  case Nil
  then show ?case by simp
next
  case (Cons a S)
  let ?N = "P @ a # S"
  have dN: "distinct ?N" by (rule Cons.prems(1))
  have df: "\<And>x. x \<in> set ?N \<Longrightarrow> CHR ''-'' \<notin> set x"
    using Cons.prems(2) by (auto simp: dashFree_def)
  have aN: "a \<in> set ?N" by simp
  have aP: "a \<notin> set P" using dN by simp
  have seen: "\<forall>b\<in>set ?N. b \<noteq> a \<longrightarrow> (pairKey a b \<in> seenKeys P ?N \<longleftrightarrow> b \<in> set P)"
  proof (intro ballI impI iffI)
    fix b assume b: "b \<in> set ?N" "b \<noteq> a" and "pairKey a b \<in> seenKeys P ?N"
    then obtain p y where p: "p \<in> set P" "y \<in> set ?N" "y \<noteq> p" "pairKey a b = pairKey p y"
      by (auto simp: seenKeys_def)
    have "(a = p \<and> b = y) \<or> (a = y \<and> b = p)"
      using pairKey_inj [OF df [OF aN] df [OF b(1)] df df [OF p(2)] p(4)] p(1) by simp
    then show "b \<in> set P" using p(1) aP by auto
  next
    fix b assume b: "b \<in> set ?N" "b \<noteq> a" and bP: "b \<in> set P"
    have "pairKey b a \<in> pairKey b ` (set ?N - {b})" using b(2) by simp
    then have "pairKey b a \<in> seenKeys P ?N" using bP unfolding seenKeys_def by blast
    then show "pairKey a b \<in> seenKeys P ?N" by (simp add: pairKey_sym [of a b])
  qed
  have inj: "\<forall>b\<in>set ?N. \<forall>b'\<in>set ?N. pairKey a b = pairKey a b' \<longrightarrow> b = b'"
  proof (intro ballI impI)
    fix b b' assume b: "b \<in> set ?N" "b' \<in> set ?N" "pairKey a b = pairKey a b'"
    have "(a = a \<and> b = b') \<or> (a = b' \<and> b = a)"
      by (rule pairKey_inj [OF df [OF aN] df [OF b(1)] df [OF aN] df [OF b(2)] b(3)])
    then show "b = b'" by auto
  qed
  have inner: "foldl (pickInner ps c opp a) (res, seenKeys P ?N) ?N =
        (res @ concat (map (pickPair ps c opp a) S), seenKeys (P @ [a]) ?N)"
    using pickInner_fold [OF dN seen inj, of ps c opp res] filter_later [OF dN]
    by (simp add: seenKeys_snoc)
  have d': "distinct ((P @ [a]) @ S)" and f': "dashFree ((P @ [a]) @ S)"
    using Cons.prems by simp_all
  have "foldl (\<lambda>acc n1. foldl (pickInner ps c opp n1) acc ?N) (res, seenKeys P ?N) (a # S) =
        foldl (\<lambda>acc n1. foldl (pickInner ps c opp n1) acc ((P @ [a]) @ S))
          (res @ concat (map (pickPair ps c opp a) S), seenKeys (P @ [a]) ((P @ [a]) @ S)) S"
    using inner by simp
  also have "\<dots> = ((res @ concat (map (pickPair ps c opp a) S))
                        @ concat (map (\<lambda>(a, b). pickPair ps c opp a b) (upperPairs S)),
                     seenKeys ((P @ [a]) @ S) ((P @ [a]) @ S))"
    by (rule Cons.IH [OF d' f'])
  finally show ?case by (simp add: comp_def)
qed

lemma checkPick_pairs:
  assumes "map_of BOARD_NODES c = Some n" "distinct (neighbors n)" "dashFree (neighbors n)"
  shows "checkPick ps c me =
         concat (map (\<lambda>(a, b). pickPair ps c (getOpponent me) a b) (upperPairs (neighbors n)))"
  using pickOuter_fold [of "[]" "neighbors n" ps c "getOpponent me" "[]"] assms
  by (simp add: checkPick_def seenKeys_def)

lemma checkPick_unfold:
  "checkPick ps c me =
     (case map_of BOARD_NODES c of
        None \<Rightarrow> []
      | Some n \<Rightarrow> concat (map (\<lambda>(a, b). pickPair ps c (getOpponent me) a b)
                               (upperPairs (neighbors n))))"
proof (cases "map_of BOARD_NODES c")
  case None
  then show ?thesis by (simp add: checkPick_def)
next
  case (Some n)
  then show ?thesis using checkPick_pairs [OF Some board_node_ok(1,2) [OF Some]] by simp
qed

section \<open>Invariants of the capture cascade\<close>

lemma getOpponent_neq: "getOpponent p \<noteq> p"
  by (cases p) simp_all

declare getOpponent.simps [simp del]

lemma map_of_flipPiece:
  "map_of (flipPiece p n ps) k =
     (if k = n then map_option (\<lambda>pc. pc\<lparr>player := p\<rparr>) (map_of ps n) else map_of ps k)"
  by (cases "map_of ps n") (simp_all add: flipPiece_def update_conv')

lemma playerAt_flipPiece:
  "playerAt (flipPiece p n ps) k =
     (if k = n \<and> map_of ps n \<noteq> None then Some p else playerAt ps k)"
  by (cases "map_of ps n") (auto simp: playerAt_def map_of_flipPiece)

lemma pickPair_opp: "x \<in> set (pickPair ps c opp a b) \<Longrightarrow> playerAt ps x = Some opp"
  by (auto simp: pickPair_def split: if_splits)

lemma checkPick_opp:
  assumes "x \<in> set (checkPick ps c me)"
  shows "playerAt ps x = Some (getOpponent me)"
proof (cases "map_of BOARD_NODES c")
  case None
  with assms show ?thesis by (simp add: checkPick_def)
next
  case (Some n)
  with assms obtain a b where "x \<in> set (pickPair ps c (getOpponent me) a b)"
    by (auto simp: checkPick_unfold)
  then show ?thesis by (rule pickPair_opp)
qed

lemma clampInner_fold_opp:
  assumes "playerAt ps n1 = Some opp" "\<forall>x\<in>set res. playerAt ps x = Some opp"
  shows "\<forall>x\<in>set (foldl (clampInner ps c me n1) res ns). playerAt ps x = Some opp"
  using assms(2)
proof (induction ns arbitrary: res)
  case Nil
  then show ?case by simp
next
  case (Cons n ns)
  have "\<forall>x\<in>set (clampInner ps c me n1 res n). playerAt ps x = Some opp"
    using Cons.prems assms(1) by (auto simp: clampInner_def)
  then show ?case using Cons.IH by simp
qed

lemma clampOuter_opp:
  assumes "clampOuter ps c me res n1 = Inr res'" "\<forall>x\<in>set res. playerAt ps x = Some (getOpponent me)"
  shows "\<forall>x\<in>set res'. playerAt ps x = Some (getOpponent me)"
proof (cases "playerAt ps n1 = Some (getOpponent me)")
  case True
  show ?thesis
  proof (cases "map_of BOARD_NODES n1")
    case None
    with True assms(1) show ?thesis by (simp add: clampOuter_def)
  next
    case (Some nd)
    with True assms(1) have "res' = foldl (clampInner ps c me n1) res (neighbors nd)"
      by (simp add: clampOuter_def)
    then show ?thesis using clampInner_fold_opp [OF True assms(2)] by simp
  qed
next
  case False
  with assms show ?thesis by (simp add: clampOuter_def)
qed

lemma foldE_clampOuter_opp:
  "foldE (clampOuter ps c me) res ns = Inr res' \<Longrightarrow>
   \<forall>x\<in>set res. playerAt ps x = Some (getOpponent me) \<Longrightarrow>
   \<forall>x\<in>set res'. playerAt ps x = Some (getOpponent me)"
proof (induction ns arbitrary: res)
  case Nil
  then show ?case by simp
next
  case (Cons n ns)
  from Cons.prems(1) obtain r1 where
    r1: "clampOuter ps c me res n = Inr r1" and r2: "foldE (clampOuter ps c me) r1 ns = Inr res'"
    by (auto split: sum.splits)
  show ?case by (rule Cons.IH [OF r2 clampOuter_opp [OF r1 Cons.prems(2)]])
qed

lemma checkClamp_opp:
  assumes "checkClamp ps c me = Inr res" "x \<in> set res"
  shows "playerAt ps x = Some (getOpponent me)"
proof (cases "map_of BOARD_NODES c")
  case None
  with assms show ?thesis by (simp add: checkClamp_def)
next
  case (Some n)
  with assms(1) have "foldE (clampOuter ps c me) [] (neighbors n) = Inr res"
    by (simp add: checkClamp_def)
  from foldE_clampOuter_opp [OF this] assms(2) show ?thesis by simp
qed

lemma centerTargets_opp:
  assumes "centerTargets ps c me = Inr fl" "x \<in> set fl"
  shows "playerAt ps x = Some (getOpponent me)"
proof (cases "checkPick ps c me = []")
  case True
  with assms have "checkClamp ps c me = Inr fl" by (simp add: centerTargets_def)
  then show ?thesis using assms(2) by (rule checkClamp_opp)
next
  case False
  with assms have "fl = checkPick ps c me" by (auto simp: centerTargets_def)
  then show ?thesis using assms(2) checkPick_opp by simp
qed

lemma capInv_processed [simp]:
  "capInv me fr to tot0 (st\<lparr>processedNodes := X\<rparr>) = capInv me fr to tot0 st"
  by (simp add: capInv_def)

lemma applyFlip_capInv:
  assumes "capInv me fr to tot0 st" "fid \<noteq> fr" "fid \<noteq> to"
  shows "capInv me fr to tot0 (applyFlip me st fid)"
proof (cases "fid \<in> set (totalCaptures st)")
  case True
  then show ?thesis using assms(1) by (simp add: applyFlip_def)
next
  case False
  from assms(1) have tc: "totalCaptures st = tot0 @ currentStepFlips st"
    and d: "distinct (totalCaptures st)"
    and nf: "fr \<notin> set (totalCaptures st)" and nt: "to \<notin> set (totalCaptures st)"
    and pt: "playerAt (c_pieces st) to = Some me" and pf: "map_of (c_pieces st) fr = None"
    unfolding capInv_def by blast+
  have d': "distinct (totalCaptures st @ [fid])" using d False by simp
  have tc': "totalCaptures st @ [fid] = tot0 @ (currentStepFlips st @ [fid])" using tc by simp
  have nf': "fr \<notin> set (totalCaptures st @ [fid])" using nf assms(2) by simp
  have nt': "to \<notin> set (totalCaptures st @ [fid])" using nt assms(3) by simp
  have pt': "playerAt (flipPiece me fid (c_pieces st)) to = Some me"
    using pt assms(3) by (simp add: playerAt_flipPiece)
  have pf': "map_of (flipPiece me fid (c_pieces st)) fr = None"
    using pf assms(2) by (simp add: map_of_flipPiece)
  show ?thesis
  proof (cases "map_of (c_pieces st) fid")
    case None
    then have "applyFlip me st fid = st\<lparr>totalCaptures := totalCaptures st @ [fid],
                         currentStepFlips := currentStepFlips st @ [fid]\<rparr>"
      using False by (simp add: applyFlip_def Let_def)
    then show ?thesis unfolding capInv_def using d' tc' nf' nt' pt pf by simp
  next
    case (Some pc)
    then have "applyFlip me st fid = st\<lparr>totalCaptures := totalCaptures st @ [fid],
                         currentStepFlips := currentStepFlips st @ [fid],
                         c_pieces := flipPiece me fid (c_pieces st),
                         nextBatch := nextBatch st @ [fid]\<rparr>"
      using False by (simp add: applyFlip_def Let_def)
    then show ?thesis unfolding capInv_def using d' tc' nf' nt' pt' pf' by simp
  qed
qed

lemma foldl_applyFlip_capInv:
  "capInv me fr to tot0 st \<Longrightarrow> fr \<notin> set fl \<Longrightarrow> to \<notin> set fl \<Longrightarrow>
   capInv me fr to tot0 (foldl (applyFlip me) st fl)"
proof (induction fl arbitrary: st)
  case Nil
  then show ?case by simp
next
  case (Cons f fl)
  have "capInv me fr to tot0 (applyFlip me st f)"
    using Cons.prems by (intro applyFlip_capInv) auto
  then show ?case using Cons.IH Cons.prems by simp
qed

lemma processCenter_capInv:
  assumes "processCenter me st c = Inr st'" "capInv me fr to tot0 st"
  shows "capInv me fr to tot0 st'"
proof (cases "c \<in> processedNodes st")
  case True
  with assms show ?thesis by (simp add: processCenter_def)
next
  case False
  let ?st1 = "st\<lparr>processedNodes := insert c (processedNodes st)\<rparr>"
  from False assms(1) obtain fl where
    fl: "centerTargets (c_pieces st) c me = Inr fl" and st': "st' = foldl (applyFlip me) ?st1 fl"
    by (auto simp: processCenter_def Let_def split: sum.splits)
  have inv1: "capInv me fr to tot0 ?st1" using assms(2) by simp
  have "fr \<notin> set fl"
  proof
    assume "fr \<in> set fl"
    then have "playerAt (c_pieces st) fr = Some (getOpponent me)" by (rule centerTargets_opp [OF fl])
    moreover have "map_of (c_pieces st) fr = None" using assms(2) unfolding capInv_def by blast
    ultimately show False by (simp add: playerAt_def)
  qed
  moreover have "to \<notin> set fl"
  proof
    assume "to \<in> set fl"
    then have "playerAt (c_pieces st) to = Some (getOpponent me)" by (rule centerTargets_opp [OF fl])
    moreover have "playerAt (c_pieces st) to = Some me" using assms(2) unfolding capInv_def by blast
    ultimately show False using getOpponent_neq [of me] by simp
  qed
  ultimately show ?thesis unfolding st' using inv1 by (intro foldl_applyFlip_capInv)
qed

lemma foldE_processCenter_capInv:
  "foldE (processCenter me) st cs = Inr st' \<Longrightarrow> capInv me fr to tot0 st \<Longrightarrow>
   capInv me fr to tot0 st'"
proof (induction cs arbitrary: st)
  case Nil
  then show ?case by simp
next
  case (Cons c cs)
  from Cons.prems(1) obtain st1 where
    s1: "processCenter me st c = Inr st1" and s2: "foldE (processCenter me) st1 cs = Inr st'"
    by (auto split: sum.splits)
  show ?case by (rule Cons.IH [OF s2 processCenter_capInv [OF s1 Cons.prems(2)]])
qed

lemma capturePass_capInv:
  assumes "capturePass me ps tot processed act = Inr st"
    and "distinct tot" "fr \<notin> set tot" "to \<notin> set tot"
    and "playerAt ps to = Some me" "map_of ps fr = None"
  shows "capInv me fr to tot st"
proof -
  let ?st0 = "\<lparr>c_pieces = ps, totalCaptures = tot, currentStepFlips = [], nextBatch = [],
               processedNodes = processed\<rparr>"
  have "capInv me fr to tot ?st0" using assms(2-6) by (simp add: capInv_def)
  moreover have "foldE (processCenter me) ?st0 act = Inr st"
    using assms(1) by (simp add: capturePass_def)
  ultimately show ?thesis using foldE_processCenter_capInv by blast
qed

lemma cascade_result:
  assumes "cascade me ps act tot steps processed = Inr (tot', steps')"
    and "concat steps = tot" "distinct tot" "fr \<notin> set tot" "to \<notin> set tot"
    and "playerAt ps to = Some me" "map_of ps fr = None"
  shows "concat steps' = tot' \<and> distinct tot' \<and> fr \<notin> set tot' \<and> to \<notin> set tot'"
  using assms
proof (induction me ps act tot steps processed rule: cascade.induct)
  case (1 me ps activeNodes tot steps processed)
  show ?case
  proof (cases "activeNodes = []")
    case True
    with "1.prems" show ?thesis by (simp add: cascade.simps)
  next
    case False
    from False "1.prems"(1) obtain st where
      st: "capturePass me ps tot processed activeNodes = Inr st"
      and rec: "cascade me (c_pieces st) (nextBatch st) (totalCaptures st)
                  (if length (currentStepFlips st) > 0 then steps @ [currentStepFlips st] else steps)
                  (processedNodes st) = Inr (tot', steps')"
      by (subst (asm) cascade.simps) (auto split: sum.splits)
    have inv: "capInv me fr to tot st"
      by (rule capturePass_capInv [OF st "1.prems"(3-7)])
    have "totalCaptures st = tot @ currentStepFlips st" using inv unfolding capInv_def by blast
    then have c: "concat (if length (currentStepFlips st) > 0 then steps @ [currentStepFlips st] else steps)
             = totalCaptures st"
      using "1.prems"(2) by auto
    from inv have d: "distinct (totalCaptures st)"
      and nf: "fr \<notin> set (totalCaptures st)" and nt: "to \<notin> set (totalCaptures st)"
      and pt: "playerAt (c_pieces st) to = Some me" and pf: "map_of (c_pieces st) fr = None"
      unfolding capInv_def by blast+
    have gt: "0 < length activeNodes" using False by simp
    show ?thesis
      by (rule "1.IH" [OF gt st rec c d nf nt pt pf])
  qed
qed

section \<open>Moves returned by the generator\<close>

lemma collect_mem:
  "collect f xs = Inr ys \<Longrightarrow> y \<in> set ys \<Longrightarrow> \<exists>x\<in>set xs. \<exists>zs. f x = Inr zs \<and> y \<in> set zs"
proof (induction xs arbitrary: ys)
  case Nil
  then show ?case by simp
next
  case (Cons x xs)
  from Cons.prems(1) obtain a b where ab: "f x = Inr a" "collect f xs = Inr b" "ys = a @ b"
    by (auto split: sum.splits)
  show ?case
  proof (cases "y \<in> set a")
    case True
    then show ?thesis using ab(1) by auto
  next
    case False
    then have "y \<in> set b" using Cons.prems(2) ab(3) by simp
    from Cons.IH [OF ab(2) this] show ?thesis by auto
  qed
qed

lemma findNextInLine_Some:
  "findNextInLine p c ns = Some n \<Longrightarrow> n \<in> set ns \<and> n \<noteq> p \<and> areCollinear p c n"
  by (induction ns) (auto split: if_splits)

lemma slide_chain:
  "slide i ps prev cur = Inr ds \<Longrightarrow> d \<in> set ds \<Longrightarrow>
   \<exists>q. q \<noteq> [] \<and> last q = d \<and> chainOk ps prev cur q"
proof (induction i ps prev cur arbitrary: ds rule: slide.induct)
  case (1 i ps prevId currentId)
  from "1.prems" have lt: "i < 10"
    by (subst (asm) slide.simps) (auto split: if_splits)
  from "1.prems" lt obtain currNode where cn: "map_of BOARD_NODES currentId = Some currNode"
    by (subst (asm) slide.simps) (auto split: option.splits)
  from "1.prems" lt cn obtain nx where
    nx: "findNextInLine prevId currentId (neighbors currNode) = Some nx"
    by (subst (asm) slide.simps) (auto split: option.splits)
  have ok: "nx \<noteq> [] \<and> map_of ps nx = None"
    using "1.prems" lt cn nx by (subst (asm) slide.simps) (auto split: if_splits)
  from "1.prems"(1) lt cn nx ok obtain ds' where
    ds': "slide (i + 1) ps currentId nx = Inr ds'" "ds = nx # ds'"
    by (subst (asm) slide.simps) (auto split: sum.splits)
  have step: "nx \<in> set (neighborsOf currentId) \<and> nx \<noteq> prevId \<and> areCollinear prevId currentId nx"
    using findNextInLine_Some [OF nx] cn by (simp add: neighborsOf_def)
  show ?case
  proof (cases "d = nx")
    case True
    have "chainOk ps prevId currentId [nx]" using step ok by simp
    then show ?thesis using True by (intro exI [of _ "[nx]"]) simp
  next
    case False
    then have "d \<in> set ds'" using "1.prems"(2) ds'(2) by simp
    from "1.IH" [OF lt cn nx _ ds'(1) this] ok obtain q where
      q: "q \<noteq> []" "last q = d" "chainOk ps currentId nx q" by auto
    have "chainOk ps prevId currentId (nx # q)" using step ok q(3) by simp
    then show ?thesis using q(1,2) by (intro exI [of _ "nx # q"]) simp
  qed
qed

lemma chainOk_last_empty:
  "chainOk ps p c q \<Longrightarrow> q \<noteq> [] \<Longrightarrow> map_of ps (last q) = None"
  by (induction q arbitrary: p c) (auto split: if_splits)

lemma destinationsVia_slide:
  assumes "destinationsVia ps fromId nb = Inr ds" "d \<in> set ds" "nb \<in> set (neighborsOf fromId)"
  shows "map_of ps d = None \<and> (\<exists>path. validSlide ps fromId path \<and> last path = d)"
proof -
  from assms(1,2) have e: "map_of ps nb = None"
    by (auto simp: destinationsVia_def split: if_splits)
  with assms(1) obtain ds' where ds': "slide 0 ps fromId nb = Inr ds'" "ds = nb # ds'"
    by (auto simp: destinationsVia_def split: sum.splits)
  show ?thesis
  proof (cases "d = nb")
    case True
    have "validSlide ps fromId [nb]" using assms(3) e by (simp add: validSlide_def)
    then show ?thesis using True e by (intro conjI exI [of _ "[nb]"]) simp_all
  next
    case False
    then have "d \<in> set ds'" using assms(2) ds'(2) by simp
    from slide_chain [OF ds'(1) this] obtain q where
      q: "q \<noteq> []" "last q = d" "chainOk ps fromId nb q" by auto
    have "validSlide ps fromId (nb # q)" using assms(3) e q(3) by (simp add: validSlide_def)
    moreover have "map_of ps d = None"
      using chainOk_last_empty [OF q(3) q(1)] q(2) by simp
    ultimately show ?thesis using q(1,2) by (intro conjI exI [of _ "nb # q"]) simp_all
  qed
qed

text \<open>What a move returned by \<open>getValidMoves\<close> is made of.\<close>

lemma getValidMoves_elem:
  assumes "getValidMoves state fromId = Inr moves" "m \<in> set moves"
  obtains pc caps steps where
    "map_of (pieces state) fromId = Some pc" "player pc = currentPlayer state"
    "map_of (pieces state) (toN m) = None"
    "\<exists>path. validSlide (pieces state) fromId path \<and> last path = toN m"
    "calculateRecursiveCaptures state fromId (toN m) = Inr (caps, steps)"
    "m = \<lparr>fromN = fromId, toN = toN m, captures = Some caps, captureSteps = Some steps\<rparr>"
proof -
  from assms obtain pc where pc: "map_of (pieces state) fromId = Some pc"
    by (cases "map_of (pieces state) fromId") (auto simp: getValidMoves_def)
  from assms pc have pl: "player pc = currentPlayer state"
    by (auto simp: getValidMoves_def split: if_splits)
  from assms pc pl obtain nd where nd: "map_of BOARD_NODES fromId = Some nd"
    by (cases "map_of BOARD_NODES fromId") (auto simp: getValidMoves_def)
  from assms(1) pc pl nd obtain dests where
    dests: "collect (destinationsVia (pieces state) fromId) (neighbors nd) = Inr dests"
    and mv: "collect (moveTo state fromId) dests = Inr moves"
    by (auto simp: getValidMoves_def split: sum.splits)
  from collect_mem [OF mv assms(2)] obtain to zs where
    to: "to \<in> set dests" "moveTo state fromId to = Inr zs" "m \<in> set zs" by auto
  from to(2,3) obtain caps steps where
    cs: "calculateRecursiveCaptures state fromId to = Inr (caps, steps)"
    and m: "m = \<lparr>fromN = fromId, toN = to, captures = Some caps, captureSteps = Some steps\<rparr>"
    by (auto simp: moveTo_def split: sum.splits prod.splits)
  from collect_mem [OF dests to(1)] obtain nb ds where
    nb: "nb \<in> set (neighbors nd)" "destinationsVia (pieces state) fromId nb = Inr ds" "to \<in> set ds"
    by auto
  have "nb \<in> set (neighborsOf fromId)" using nb(1) nd by (simp add: neighborsOf_def)
  from destinationsVia_slide [OF nb(2,3) this] m cs pc pl that show thesis by simp
qed

lemma calc_result:
  assumes "calculateRecursiveCaptures state fromId to = Inr (caps, steps)"
    and "map_of (pieces state) fromId = Some pc" "player pc = currentPlayer state"
    and "map_of (pieces state) to = None"
  shows "concat steps = caps \<and> distinct caps \<and> fromId \<notin> set caps \<and> to \<notin> set caps"
proof -
  have ne: "fromId \<noteq> to" using assms(2,4) by auto
  let ?vb = "virtualBoard (pieces state) fromId to"
  have vb: "?vb = AList.update to pc (AList.delete fromId (pieces state))"
    using assms(2) by (simp add: virtualBoard_def)
  have p1: "playerAt ?vb to = Some (currentPlayer state)"
    using assms(3) by (simp add: vb playerAt_def update_conv')
  have p2: "map_of ?vb fromId = None"
    using ne by (simp add: vb update_conv' delete_conv')
  from assms(1) have "cascade (currentPlayer state) ?vb [to] [] [] {} = Inr (caps, steps)"
    by (simp add: calculateRecursiveCaptures_def)
  from cascade_result [OF this _ _ _ _ p1 p2] show ?thesis by simp
qed

section \<open>Alpha-beta against plain minimax\<close>

subsection \<open>Order facts\<close>

lemma NegInf_least [simp]: "NegInf \<le> (x :: Score)"
  by simp

lemma PosInf_greatest [simp]: "(x :: Score) \<le> PosInf"
  by (cases x) simp_all

lemma max_NegInf [simp]: "max NegInf (x :: Score) = x" "max x NegInf = x"
  by (cases x; simp add: max_def)+

lemma min_PosInf [simp]: "min PosInf (x :: Score) = x" "min x PosInf = x"
  by (cases x; simp add: min_def)+

lemma foldl_max_ge: "(a :: 'a :: linorder) \<le> foldl max a vs"
proof (induction vs arbitrary: a)
  case Nil
  then show ?case by simp
next
  case (Cons v vs)
  have "a \<le> max a v" by simp
  also have "\<dots> \<le> foldl max (max a v) vs" by (rule Cons.IH)
  finally show ?case by simp
qed

lemma foldl_max_acc: "foldl max (max (a :: 'a :: linorder) b) vs = max a (foldl max b vs)"
  by (induction vs arbitrary: a b) (simp_all add: max.assoc)

lemma foldl_min_le: "foldl min (a :: 'a :: linorder) vs \<le> a"
proof (induction vs arbitrary: a)
  case Nil
  then show ?case by simp
next
  case (Cons v vs)
  have "foldl min (min a v) vs \<le> min a v" by (rule Cons.IH)
  also have "\<dots> \<le> a" by simp
  finally show ?case by simp
qed

lemma foldl_min_acc: "foldl min (min (a :: 'a :: linorder) b) vs = min a (foldl min b vs)"
  by (induction vs arbitrary: a b) (simp_all add: min.assoc)

lemma window_cut_high:
  assumes "(al :: 'a :: linorder) < b" "window al b r = window al b v" "b \<le> max al r"
  shows "b \<le> r" "b \<le> v"
proof -
  show br: "b \<le> r" using assms(1,3) by (auto simp: max_def split: if_splits)
  have "window al b r = b" using br assms(1) by (auto simp: window_def max_def min_def)
  then have "max al (min v b) = b" using assms(2) by (simp add: window_def)
  then show "b \<le> v" using assms(1) by (auto simp: max_def min_def split: if_splits)
qed

lemma window_go_on_max:
  assumes "(al :: 'a :: linorder) < b" "window al b r = window al b v" "max al r < b"
  shows "max al r = max al v"
  using assms by (auto simp: window_def max_def min_def split: if_splits)

lemma window_cut_low:
  assumes "a < (be :: 'a :: linorder)" "window a be r = window a be v" "min be r \<le> a"
  shows "r \<le> a" "v \<le> a"
proof -
  show ra: "r \<le> a" using assms(1,3) by (auto simp: min_def split: if_splits)
  have "window a be r = a" using ra assms(1) by (auto simp: window_def max_def min_def)
  then have "max a (min v be) = a" using assms(2) by (simp add: window_def)
  then show "v \<le> a" using assms(1) by (auto simp: max_def min_def split: if_splits)
qed

lemma window_go_on_min:
  assumes "a < (be :: 'a :: linorder)" "window a be r = window a be v" "a < min be r"
  shows "min be r = min be v"
  using assms by (auto simp: window_def max_def min_def split: if_splits)

lemma window_foldl_max:
  assumes "max (a :: 'a :: linorder) x = max a y"
  shows "window a b (foldl max x vs) = window a b (foldl max y vs)"
proof -
  have "\<And>z. window a b (foldl max z vs) = min (foldl max (max a z) vs) (max a b)"
    by (simp add: window_def max_min_distrib2 foldl_max_acc)
  then show ?thesis using assms by simp
qed

lemma window_foldl_min:
  assumes "min (b :: 'a :: linorder) x = min b y"
  shows "window a b (foldl min x vs) = window a b (foldl min y vs)"
proof -
  have "\<And>z. window a b (foldl min z vs) = max a (foldl min (min b z) vs)"
    unfolding window_def foldl_min_acc by (simp add: min.commute)
  then show ?thesis using assms by simp
qed

lemma maxLoop_sound:
  assumes "list_all2 (childOk child s) ms vs" and "al = max \<alpha> m0" and "al < \<beta>"
  shows "\<exists>R. maxLoop child s ms m0 al \<beta> = Inr R
             \<and> window \<alpha> \<beta> R = window \<alpha> \<beta> (foldl max m0 vs)"
  using assms
proof (induction arbitrary: m0 al rule: list_all2_induct)
  case Nil
  then show ?case by simp
next
  case (Cons m ms v vs)
  from Cons.hyps(1) Cons.prems(2) obtain s' r where
    s': "simulateMove s m = Inr s'" and r: "child s' al \<beta> = Inr r"
    and w: "window al \<beta> r = window al \<beta> v"
    unfolding childOk_def by blast
  have \<alpha>le: "\<alpha> \<le> al" using Cons.prems(1) by simp
  show ?case
  proof (cases "\<beta> \<le> max al r")
    case True
    have br: "\<beta> \<le> r" and bv: "\<beta> \<le> v"
      using window_cut_high [OF Cons.prems(2) w True] by simp_all
    have "\<beta> \<le> max m0 r" using br by (simp add: le_max_iff_disj)
    then have l: "window \<alpha> \<beta> (max m0 r) = max \<alpha> \<beta>" by (simp add: window_def min_absorb2)
    have "\<beta> \<le> max m0 v" using bv by (simp add: le_max_iff_disj)
    also have "\<dots> \<le> foldl max (max m0 v) vs" by (rule foldl_max_ge)
    finally have "window \<alpha> \<beta> (foldl max (max m0 v) vs) = max \<alpha> \<beta>"
      by (simp add: window_def min_absorb2)
    then show ?thesis using s' r True l by simp
  next
    case False
    then have lt: "max al r < \<beta>" by (simp only: not_le)
    have al1: "max al r = max \<alpha> (max m0 r)" using Cons.prems(1) by (simp add: max.assoc)
    from Cons.IH [OF al1 lt] obtain R where
      R: "maxLoop child s ms (max m0 r) (max al r) \<beta> = Inr R"
         "window \<alpha> \<beta> R = window \<alpha> \<beta> (foldl max (max m0 r) vs)" by blast
    have "max al r = max al v" by (rule window_go_on_max [OF Cons.prems(2) w lt])
    then have "max \<alpha> (max m0 r) = max \<alpha> (max m0 v)"
      using Cons.prems(1) by (simp add: max.assoc)
    then have "window \<alpha> \<beta> (foldl max (max m0 r) vs) = window \<alpha> \<beta> (foldl max (max m0 v) vs)"
      by (rule window_foldl_max)
    then show ?thesis using s' r False R by simp
  qed
qed

lemma minLoop_sound:
  assumes "list_all2 (childOk child s) ms vs" and "be = min \<beta> m0" and "\<alpha> < be"
  shows "\<exists>R. minLoop child s ms m0 \<alpha> be = Inr R
             \<and> window \<alpha> \<beta> R = window \<alpha> \<beta> (foldl min m0 vs)"
  using assms
proof (induction arbitrary: m0 be rule: list_all2_induct)
  case Nil
  then show ?case by simp
next
  case (Cons m ms v vs)
  from Cons.hyps(1) Cons.prems(2) obtain s' r where
    s': "simulateMove s m = Inr s'" and r: "child s' \<alpha> be = Inr r"
    and w: "window \<alpha> be r = window \<alpha> be v"
    unfolding childOk_def by blast
  show ?case
  proof (cases "min be r \<le> \<alpha>")
    case True
    have ra: "r \<le> \<alpha>" and va: "v \<le> \<alpha>"
      using window_cut_low [OF Cons.prems(2) w True] by simp_all
    have "min (min m0 r) \<beta> \<le> \<alpha>" using ra by (simp add: min_le_iff_disj)
    then have l: "window \<alpha> \<beta> (min m0 r) = \<alpha>" by (simp add: window_def max_absorb1)
    have "foldl min (min m0 v) vs \<le> min m0 v" by (rule foldl_min_le)
    also have "\<dots> \<le> \<alpha>" using va by (simp add: min_le_iff_disj)
    finally have "min (foldl min (min m0 v) vs) \<beta> \<le> \<alpha>" by (simp add: min_le_iff_disj)
    then have "window \<alpha> \<beta> (foldl min (min m0 v) vs) = \<alpha>"
      by (simp add: window_def max_absorb1)
    then show ?thesis using s' r True l by simp
  next
    case False
    then have lt: "\<alpha> < min be r" by (simp only: not_le)
    have be1: "min be r = min \<beta> (min m0 r)" using Cons.prems(1) by (simp add: min.assoc)
    from Cons.IH [OF be1 lt] obtain R where
      R: "minLoop child s ms (min m0 r) \<alpha> (min be r) = Inr R"
         "window \<alpha> \<beta> R = window \<alpha> \<beta> (foldl min (min m0 r) vs)" by blast
    have "min be r = min be v" by (rule window_go_on_min [OF Cons.prems(2) w lt])
    then have "min \<beta> (min m0 r) = min \<beta> (min m0 v)"
      using Cons.prems(1) by (simp add: min.assoc)
    then have "window \<alpha> \<beta> (foldl min (min m0 r) vs) = window \<alpha> \<beta> (foldl min (min m0 v) vs)"
      by (rule window_foldl_min)
    then show ?thesis using s' r False R by simp
  qed
qed

lemma childScores_all2:
  "childScores child s ms = Inr vs \<Longrightarrow>
   list_all2 (\<lambda>m v. \<exists>s'. simulateMove s m = Inr s' \<and> child s' = Inr v) ms vs"
proof (induction ms arbitrary: vs)
  case Nil
  then show ?case by simp
next
  case (Cons m ms)
  from Cons.prems obtain s' v vs' where
    "simulateMove s m = Inr s'" "child s' = Inr v" "childScores child s ms = Inr vs'"
    "vs = v # vs'"
    by (auto split: sum.splits)
  then show ?case using Cons.IH by simp
qed

text \<open>Alpha-beta agrees with plain minimax through every non-empty window.\<close>

lemma minimax_window:
  "plainMinimax n s d isMax ai = Inr v \<Longrightarrow> a < b \<Longrightarrow>
   \<exists>r. minimax n s d isMax a b ai = Inr r \<and> window a b r = window a b v"
proof (induction n arbitrary: s d isMax a b v)
  case 0
  then show ?case by simp
next
  case (Suc n)
  show ?case
  proof (cases "checkWinCondition s \<noteq> None \<or> d = 0")
    case True
    then show ?thesis using Suc.prems(1) by simp
  next
    case False
    let ?cp = "if isMax then ai else (if ai = Black then White else Black)"
    from False Suc.prems(1) obtain moves where mv: "getAllMoves s ?cp = Inr moves"
      by (cases "getAllMoves s ?cp") (simp_all add: Let_def)
    show ?thesis
    proof (cases "moves = []")
      case True
      then show ?thesis using False mv Suc.prems(1) by (simp add: Let_def)
    next
      case ne: False
      from False mv ne Suc.prems(1) obtain vs where
        vs: "childScores (\<lambda>s'. plainMinimax n s' (d - 1) (\<not> isMax) ai) s moves = Inr vs"
        and v: "v = (if isMax then foldl max NegInf vs else foldl min PosInf vs)"
        by (auto simp: Let_def split: sum.splits)
      have ok: "list_all2 (childOk (\<lambda>s' a b. minimax n s' (d - 1) (\<not> isMax) a b ai) s) moves vs"
      proof (rule list_all2_mono [OF childScores_all2 [OF vs]])
        fix m w
        assume "\<exists>s'. simulateMove s m = Inr s' \<and> plainMinimax n s' (d - 1) (\<not> isMax) ai = Inr w"
        then obtain s' where s': "simulateMove s m = Inr s'"
          "plainMinimax n s' (d - 1) (\<not> isMax) ai = Inr w" by blast
        show "childOk (\<lambda>s' a b. minimax n s' (d - 1) (\<not> isMax) a b ai) s m w"
          unfolding childOk_def using s'(1) Suc.IH [OF s'(2)] by blast
      qed
      show ?thesis
      proof (cases isMax)
        case True
        have "a = max a NegInf" by simp
        from maxLoop_sound [OF _ this Suc.prems(2), of "\<lambda>s' a b. minimax n s' (d - 1) False a b ai" s moves vs]
          ok True
        obtain R where "maxLoop (\<lambda>s' a b. minimax n s' (d - 1) False a b ai) s moves NegInf a b = Inr R"
          "window a b R = window a b (foldl max NegInf vs)" by auto
        then show ?thesis using False mv ne True v by (simp add: Let_def)
      next
        case nmax: False
        have "b = min b PosInf" by simp
        from minLoop_sound [OF _ this Suc.prems(2), of "\<lambda>s' a b. minimax n s' (d - 1) True a b ai" s moves vs]
          ok nmax
        obtain R where "minLoop (\<lambda>s' a b. minimax n s' (d - 1) True a b ai) s moves PosInf a b = Inr R"
          "window a b R = window a b (foldl min PosInf vs)" by auto
        then show ?thesis using False mv ne nmax v by (simp add: Let_def)
      qed
    qed
  qed
qed

lemma window_full [simp]: "window NegInf PosInf (x :: Score) = x"
  by (simp add: window_def)

lemma NegInf_less_PosInf: "NegInf < PosInf"
  by (simp add: less_Score_def)

lemma minimax_full_window:
  assumes "plainMinimax n s d isMax ai = Inr v"
  shows "minimax n s d isMax NegInf PosInf ai = Inr v"
  using minimax_window [OF assms NegInf_less_PosInf] by simp

subsection \<open>The root loop\<close>

lemma foldl_max_upper: "w \<in> set vs \<Longrightarrow> (w :: 'a :: linorder) \<le> foldl max a vs"
proof (induction vs arbitrary: a)
  case Nil
  then show ?case by simp
next
  case (Cons v vs)
  show ?case
  proof (cases "w = v")
    case True
    have "w \<le> max a v" using True by simp
    also have "\<dots> \<le> foldl max (max a v) vs" by (rule foldl_max_ge)
    finally show ?thesis by simp
  next
    case False
    then have "w \<in> set vs" using Cons.prems by simp
    then show ?thesis using Cons.IH by simp
  qed
qed

lemma foldl_max_same: "\<forall>w\<in>set vs. (w :: 'a :: linorder) \<le> a \<Longrightarrow> foldl max a vs = a"
  by (induction vs) (simp_all add: max_absorb1)

lemma childScores_scored: "childScores child s ms = Inr vs \<Longrightarrow> list_all2 (scored child s) ms vs"
  using childScores_all2 [of child s ms vs] by (simp add: scored_def [abs_def])

lemma scored_childScores: "list_all2 (scored child s) ms vs \<Longrightarrow> childScores child s ms = Inr vs"
  by (induction rule: list_all2_induct) (auto simp: scored_def)

lemma bestLoop_childScores:
  "bestLoop child s ms bm bs = Inr x \<Longrightarrow> \<exists>vs. childScores child s ms = Inr vs"
proof (induction ms arbitrary: bm bs)
  case Nil
  then show ?case by simp
next
  case (Cons m ms)
  from Cons.prems obtain s' v where sv: "simulateMove s m = Inr s'" "child s' = Inr v"
    by (auto split: sum.splits)
  with Cons.prems have "bestLoop child s ms (if bs < v then Some m else bm)
                          (if bs < v then v else bs) = Inr x"
    by (auto split: if_splits)
  from Cons.IH [OF this] sv show ?case by auto
qed

text \<open>
  The loop returns the maximum of the scores and the first move, in the order of the list
  it runs over, whose score is that maximum (the incumbent when no score beats it).
\<close>

lemma bestLoop_first:
  assumes "list_all2 (scored child s) ms vs"
  shows "\<exists>bm'. bestLoop child s ms bm bs = Inr (bm', foldl max bs vs)
           \<and> (if \<exists>v\<in>set vs. bs < v
               then \<exists>i<length ms. bm' = Some (ms ! i) \<and> vs ! i = foldl max bs vs
                                   \<and> (\<forall>j<i. vs ! j < vs ! i)
               else bm' = bm)"
  using assms
proof (induction arbitrary: bm bs rule: list_all2_induct)
  case Nil
  then show ?case by simp
next
  case (Cons m ms v vs)
  from Cons.hyps(1) obtain s' where sv: "simulateMove s m = Inr s'" "child s' = Inr v"
    unfolding scored_def by blast
  have len: "length ms = length vs" using Cons.hyps(2) by (rule list_all2_lengthD)
  show ?case
  proof (cases "bs < v")
    case True
    then have mx: "max bs v = v" by (simp add: max_absorb2)
    from Cons.IH [of "Some m" v] obtain bm' where
      b: "bestLoop child s ms (Some m) v = Inr (bm', foldl max v vs)"
      and c: "if \<exists>w\<in>set vs. v < w
              then \<exists>i<length ms. bm' = Some (ms ! i) \<and> vs ! i = foldl max v vs
                                  \<and> (\<forall>j<i. vs ! j < vs ! i)
              else bm' = Some m" by blast
    have run: "bestLoop child s (m # ms) bm bs = Inr (bm', foldl max bs (v # vs))"
      using sv True b mx by simp
    have ex: "\<exists>w\<in>set (v # vs). bs < w" using True by simp
    have "\<exists>i<length (m # ms). bm' = Some ((m # ms) ! i)
              \<and> (v # vs) ! i = foldl max bs (v # vs) \<and> (\<forall>j<i. (v # vs) ! j < (v # vs) ! i)"
    proof (cases "\<exists>w\<in>set vs. v < w")
      case True
      with c obtain i where i: "i < length ms" "bm' = Some (ms ! i)" "vs ! i = foldl max v vs"
        "\<forall>j<i. vs ! j < vs ! i" by auto
      from True obtain w where w: "w \<in> set vs" "v < w" by blast
      have "w \<le> foldl max v vs" by (rule foldl_max_upper [OF w(1)])
      then have vlt: "v < vs ! i" using w(2) i(3) by simp
      have "\<forall>j<Suc i. (v # vs) ! j < (v # vs) ! Suc i"
      proof (intro allI impI)
        fix j assume "j < Suc i"
        then show "(v # vs) ! j < (v # vs) ! Suc i"
          using vlt i(4) by (cases j) simp_all
      qed
      then show ?thesis using i mx by (intro exI [of _ "Suc i"]) simp
    next
      case False
      then have "\<forall>w\<in>set vs. w \<le> v" by (auto simp: not_less)
      then have "foldl max v vs = v" by (rule foldl_max_same)
      moreover have "bm' = Some m" using c False by simp
      ultimately show ?thesis using mx by (intro exI [of _ 0]) simp
    qed
    then show ?thesis using run ex by (intro exI [of _ bm']) simp
  next
    case False
    then have vle: "v \<le> bs" by (simp add: not_less)
    then have mx: "max bs v = bs" by (simp add: max_absorb1)
    from Cons.IH [of bm bs] obtain bm' where
      b: "bestLoop child s ms bm bs = Inr (bm', foldl max bs vs)"
      and c: "if \<exists>w\<in>set vs. bs < w
              then \<exists>i<length ms. bm' = Some (ms ! i) \<and> vs ! i = foldl max bs vs
                                  \<and> (\<forall>j<i. vs ! j < vs ! i)
              else bm' = bm" by blast
    have run: "bestLoop child s (m # ms) bm bs = Inr (bm', foldl max bs (v # vs))"
      using sv False b mx by simp
    show ?thesis
    proof (cases "\<exists>w\<in>set vs. bs < w")
      case True
      with c obtain i where i: "i < length ms" "bm' = Some (ms ! i)" "vs ! i = foldl max bs vs"
        "\<forall>j<i. vs ! j < vs ! i" by auto
      from True obtain w where w: "w \<in> set vs" "bs < w" by blast
      have "w \<le> foldl max bs vs" by (rule foldl_max_upper [OF w(1)])
      then have vlt: "v < vs ! i" using w(2) i(3) vle by simp
      have "\<forall>j<Suc i. (v # vs) ! j < (v # vs) ! Suc i"
      proof (intro allI impI)
        fix j assume "j < Suc i"
        then show "(v # vs) ! j < (v # vs) ! Suc i"
          using vlt i(4) by (cases j) simp_all
      qed
      then have "\<exists>i<length (m # ms). bm' = Some ((m # ms) ! i)
              \<and> (v # vs) ! i = foldl max bs (v # vs) \<and> (\<forall>j<i. (v # vs) ! j < (v # vs) ! i)"
        using i mx by (intro exI [of _ "Suc i"]) simp
      moreover have "\<exists>w\<in>set (v # vs). bs < w" using True by simp
      ultimately show ?thesis using run by (intro exI [of _ bm']) simp
    next
      case nex: False
      then have "bm' = bm" using c by simp
      moreover have "\<not> (\<exists>w\<in>set (v # vs). bs < w)" using nex False by simp
      ultimately show ?thesis using run by (intro exI [of _ bm']) simp
    qed
  qed
qed

subsection \<open>Scores are finite\<close>

lemma evaluate_isFin: "evaluate s ai = Inr v \<Longrightarrow> isFin v"
  by (auto simp: evaluate_def isFin_def Let_def split: if_splits sum.splits)

lemma max_isFin: "m0 \<noteq> PosInf \<Longrightarrow> isFin r \<Longrightarrow> isFin (max m0 r)"
  by (cases m0; cases r) (auto simp: isFin_def max_def)

lemma min_isFin: "m0 \<noteq> NegInf \<Longrightarrow> isFin r \<Longrightarrow> isFin (min m0 r)"
  by (cases m0; cases r) (auto simp: isFin_def min_def)

lemma maxLoop_isFin:
  assumes "\<And>s' a b r. child s' a b = Inr r \<Longrightarrow> isFin r"
  shows "maxLoop child s ms m0 al be = Inr R \<Longrightarrow> m0 \<noteq> PosInf \<Longrightarrow> ms \<noteq> [] \<or> isFin m0
         \<Longrightarrow> isFin R"
proof (induction ms arbitrary: m0 al)
  case Nil
  then show ?case by simp
next
  case (Cons m ms)
  from Cons.prems(1) obtain s' r where sr: "simulateMove s m = Inr s'" "child s' al be = Inr r"
    by (auto split: sum.splits)
  have f: "isFin (max m0 r)" by (rule max_isFin [OF Cons.prems(2) assms [OF sr(2)]])
  show ?case
  proof (cases "be \<le> max al r")
    case True
    then show ?thesis using Cons.prems(1) sr f by simp
  next
    case False
    then have "maxLoop child s ms (max m0 r) (max al r) be = Inr R"
      using Cons.prems(1) sr by simp
    from Cons.IH [OF this] f show ?thesis by (simp add: isFin_def)
  qed
qed

lemma minLoop_isFin:
  assumes "\<And>s' a b r. child s' a b = Inr r \<Longrightarrow> isFin r"
  shows "minLoop child s ms m0 al be = Inr R \<Longrightarrow> m0 \<noteq> NegInf \<Longrightarrow> ms \<noteq> [] \<or> isFin m0
         \<Longrightarrow> isFin R"
proof (induction ms arbitrary: m0 be)
  case Nil
  then show ?case by simp
next
  case (Cons m ms)
  from Cons.prems(1) obtain s' r where sr: "simulateMove s m = Inr s'" "child s' al be = Inr r"
    by (auto split: sum.splits)
  have f: "isFin (min m0 r)" by (rule min_isFin [OF Cons.prems(2) assms [OF sr(2)]])
  show ?case
  proof (cases "min be r \<le> al")
    case True
    then show ?thesis using Cons.prems(1) sr f by simp
  next
    case False
    then have "minLoop child s ms (min m0 r) al (min be r) = Inr R"
      using Cons.prems(1) sr by simp
    from Cons.IH [OF this] f show ?thesis by (simp add: isFin_def)
  qed
qed

lemma minimax_isFin: "minimax n s d isMax a b ai = Inr v \<Longrightarrow> isFin v"
proof (induction n arbitrary: s d isMax a b v)
  case 0
  then show ?case by simp
next
  case (Suc n)
  show ?case
  proof (cases "checkWinCondition s \<noteq> None \<or> d = 0")
    case True
    then show ?thesis using Suc.prems evaluate_isFin by simp
  next
    case False
    let ?cp = "if isMax then ai else (if ai = Black then White else Black)"
    from False Suc.prems obtain moves where mv: "getAllMoves s ?cp = Inr moves"
      by (cases "getAllMoves s ?cp") (simp_all add: Let_def)
    show ?thesis
    proof (cases "moves = []")
      case True
      then show ?thesis using False mv Suc.prems evaluate_isFin by (simp add: Let_def)
    next
      case ne: False
      show ?thesis
      proof (cases isMax)
        case True
        then have "maxLoop (\<lambda>s' a b. minimax n s' (d - 1) False a b ai) s moves NegInf a b = Inr v"
          using False mv ne Suc.prems by (simp add: Let_def)
        from maxLoop_isFin [OF _ this] ne Suc.IH show ?thesis by blast
      next
        case nmax: False
        then have "minLoop (\<lambda>s' a b. minimax n s' (d - 1) True a b ai) s moves PosInf a b = Inr v"
          using False mv ne Suc.prems by (simp add: Let_def)
        from minLoop_isFin [OF _ this] ne Suc.IH show ?thesis by blast
      qed
    qed
  qed
qed

subsection \<open>Moves of the side that is not to move\<close>

lemma collect_all_empty: "\<forall>x\<in>set xs. f x = Inr [] \<Longrightarrow> collect f xs = Inr []"
  by (induction xs) simp_all

lemma getValidMoves_other_side:
  assumes "map_of (pieces s) n = Some pc" "player pc \<noteq> currentPlayer s"
  shows "getValidMoves s n = Inr []"
  using assms by (simp add: getValidMoves_def)

lemma getAllMoves_other_side:
  assumes "distinct (map fst (pieces s))" "p \<noteq> currentPlayer s"
  shows "getAllMoves s p = Inr []"
  unfolding getAllMoves_def
proof (rule collect_all_empty, rule ballI)
  fix x assume x: "x \<in> set (pieces s)"
  obtain n pc where [simp]: "x = (n, pc)" by (cases x)
  have "map_of (pieces s) n = Some pc" using assms(1) x by simp
  then show "(case x of (nodeId, piece) \<Rightarrow>
               if player piece = p then getValidMoves s nodeId else Inr []) = Inr []"
    using assms(2) getValidMoves_other_side [of s n pc] by simp
qed

subsection \<open>Applying a move\<close>

lemma count_total: "countPieces ps Black + countPieces ps White = length ps"
proof -
  have "(\<lambda>pc :: Piece. player pc = White) = (\<lambda>pc. \<not> player pc = Black)"
    by (rule ext) (metis Player.exhaust Player.distinct(1))
  then have "countPieces ps White = length (filter (\<lambda>pc. \<not> player pc = Black) (map snd ps))"
    unfolding countPieces_def by (rule arg_cong)
  then show ?thesis
    using sum_length_filter_compl [of "\<lambda>pc. player pc = Black" "map snd ps"]
    by (simp add: countPieces_def)
qed

lemma length_update_new: "k \<notin> fst ` set al \<Longrightarrow> length (AList.update k v al) = Suc (length al)"
  by (induction al) auto

lemma length_update_old: "k \<in> fst ` set al \<Longrightarrow> length (AList.update k v al) = length al"
  by (induction al) auto

lemma length_flipPiece [simp]: "length (flipPiece p n ps) = length ps"
proof (cases "map_of ps n")
  case None
  then show ?thesis by (simp add: flipPiece_def)
next
  case (Some pc)
  then have "(n, pc) \<in> set ps" by (rule map_of_SomeD)
  then have "n \<in> fst ` set ps" by force
  then show ?thesis using Some by (simp add: flipPiece_def length_update_old)
qed

lemma length_flips [simp]: "length (foldl (\<lambda>ps capId. flipPiece p capId ps) ps caps) = length ps"
  by (induction caps arbitrary: ps) simp_all

lemma length_delete_distinct:
  "distinct (map fst ps) \<Longrightarrow> map_of ps k = Some v \<Longrightarrow> Suc (length (AList.delete k ps)) = length ps"
proof (induction ps)
  case Nil
  then show ?case by simp
next
  case (Cons x ps)
  obtain a b where [simp]: "x = (a, b)" by (cases x)
  show ?case
  proof (cases "a = k")
    case True
    then have "k \<notin> fst ` set ps" using Cons.prems(1) by auto
    then have "AList.delete k ps = ps" by (simp add: delete_id)
    then show ?thesis using True by simp
  next
    case False
    then show ?thesis using Cons by simp
  qed
qed

lemma length_moved:
  assumes "distinct (map fst ps)" "map_of ps fr = Some pc" "map_of ps to = None"
  shows "length (AList.update to pc (AList.delete fr ps)) = length ps"
proof -
  have "map_of (AList.delete fr ps) to = None" using assms(3) by (simp add: delete_conv')
  then have "to \<notin> fst ` set (AList.delete fr ps)" by (simp add: map_of_eq_None_iff)
  then have "length (AList.update to pc (AList.delete fr ps)) = Suc (length (AList.delete fr ps))"
    by (rule length_update_new)
  then show ?thesis using length_delete_distinct [OF assms(1,2)] by simp
qed

lemma foldl_concat_flips:
  "foldl (\<lambda>ps step. foldl f ps step) ps steps = foldl f ps (concat steps)"
  by (induction steps arbitrary: ps) simp_all

section \<open>Evaluating positions\<close>

lemmas eval_rules = getAllMoves_def getValidMoves_def destinationsVia_def slide.simps moveTo_def
  calculateRecursiveCaptures_def virtualBoard_def cascade.simps capturePass_def processCenter_def
  centerTargets_def checkClamp_def clampOuter_def clampInner_def applyFlip_def flipPiece_def
  checkPick_unfold node_lookup pickPair_def areCollinear_def playerAt_def Let_def
  getOpponent.simps blackPiece_def whitePiece_def

lemma chain_moves: "getValidMoves chainState ''m_right'' = Inr [chainMove]"
  by (simp add: eval_rules chainState_def chainMove_def)

section \<open>Captures and the application of a move\<close>

lemma distinct_concat_disjoint:
  "distinct (concat xss) \<Longrightarrow> i < length xss \<Longrightarrow> j < length xss \<Longrightarrow> i \<noteq> j \<Longrightarrow>
   set (xss ! i) \<inter> set (xss ! j) = {}"
proof (induction xss arbitrary: i j)
  case Nil
  then show ?case by simp
next
  case (Cons xs xss)
  have d: "distinct (concat xss)" and x: "set xs \<inter> \<Union> (set ` set xss) = {}"
    using Cons.prems(1) by simp_all
  show ?case
  proof (cases i)
    case 0
    then obtain j' where j': "j = Suc j'" "j' < length xss"
      using Cons.prems(3,4) by (cases j) simp_all
    then have "set (xss ! j') \<subseteq> \<Union> (set ` set xss)" by (meson UN_upper imageI nth_mem subsetI UN_I)
    then show ?thesis using 0 j' x by auto
  next
    case (Suc i')
    show ?thesis
    proof (cases j)
      case 0
      have "i' < length xss" using Suc Cons.prems(2) by simp
      then have "set (xss ! i') \<subseteq> \<Union> (set ` set xss)" by (meson UN_I imageI nth_mem subsetI)
      then show ?thesis using 0 Suc x by auto
    next
      case (Suc j')
      then show ?thesis using \<open>i = Suc i'\<close> Cons.IH [OF d, of i' j'] Cons.prems(2,3,4) by simp
    qed
  qed
qed

lemma simulateMove_pieces:
  assumes "map_of (pieces state) (fromN m) = Some pc"
  shows "\<exists>s'. simulateMove state m = Inr s'
           \<and> pieces s' = (case captures m of
                             None \<Rightarrow> AList.update (toN m) pc (AList.delete (fromN m) (pieces state))
                           | Some caps \<Rightarrow>
                               foldl (\<lambda>ps capId. flipPiece (currentPlayer state) capId ps)
                                 (AList.update (toN m) pc (AList.delete (fromN m) (pieces state)))
                                 caps)"
  using assms by (simp add: simulateMove_def Let_def)

lemma executeMove_pieces:
  assumes "map_of (pieces state) (fromN m) = Some pc"
  shows "\<exists>s'. executeMove state m = Inr s'
           \<and> pieces s' = (case captureSteps m of
                             None \<Rightarrow> AList.update (toN m) pc (AList.delete (fromN m) (pieces state))
                           | Some steps \<Rightarrow>
                               foldl (\<lambda>ps capId. flipPiece (currentPlayer state) capId ps)
                                 (AList.update (toN m) pc (AList.delete (fromN m) (pieces state)))
                                 (concat steps))"
proof (cases "captureSteps m")
  case None
  then show ?thesis using assms by (simp add: executeMove_def Let_def)
next
  case (Some steps)
  then show ?thesis using assms
    by (cases steps) (simp_all add: executeMove_def Let_def foldl_concat_flips)
qed

lemma keys_flips:
  "fst ` set (foldl (\<lambda>ps capId. flipPiece p capId ps) ps caps) = fst ` set ps"
  by (induction caps arbitrary: ps) (simp_all add: keys_flipPiece)

lemma keys_moved:
  "fst ` set (AList.update to pc (AList.delete fr ps)) = insert to (fst ` set ps - {fr})"
proof -
  have "fst ` set (AList.delete fr ps) = set (map fst (AList.delete fr ps))" by simp
  also have "\<dots> = set (removeAll fr (map fst ps))" by (simp only: delete_keys)
  also have "\<dots> = fst ` set ps - {fr}" by simp
  finally show ?thesis by (simp add: AList.dom_update)
qed

text \<open>
  C1. Every move returned by \<open>getValidMoves\<close> carries capture groups that are pairwise
  disjoint, in which no node occurs twice, and that contain neither the source nor the
  destination of the move.
\<close>

theorem capture_groups_disjoint:
  assumes "getValidMoves state fromId = Inr moves" and "m \<in> set moves"
  shows "\<exists>steps. captureSteps m = Some steps
           \<and> (\<forall>i<length steps. \<forall>j<length steps. i \<noteq> j
                  \<longrightarrow> set (steps ! i) \<inter> set (steps ! j) = {})
           \<and> distinct (concat steps)
           \<and> fromN m \<notin> set (concat steps) \<and> toN m \<notin> set (concat steps)"
proof -
  from assms obtain pc caps steps where
    pc: "map_of (pieces state) fromId = Some pc" "player pc = currentPlayer state"
    and e: "map_of (pieces state) (toN m) = None"
    and cs: "calculateRecursiveCaptures state fromId (toN m) = Inr (caps, steps)"
    and m: "m = \<lparr>fromN = fromId, toN = toN m, captures = Some caps, captureSteps = Some steps\<rparr>"
    by (rule getValidMoves_elem)
  from calc_result [OF cs pc e] have
    r: "distinct (concat steps)" "fromId \<notin> set (concat steps)" "toN m \<notin> set (concat steps)"
    by auto
  have st: "captureSteps m = Some steps" and fr: "fromN m = fromId"
    by (subst m, simp)+
  have "\<forall>i<length steps. \<forall>j<length steps. i \<noteq> j
               \<longrightarrow> set (steps ! i) \<inter> set (steps ! j) = {}"
    using distinct_concat_disjoint [OF r(1)] by blast
  then show ?thesis using st fr r by blast
qed

theorem capture_groups_disjoint_witness:
  "getValidMoves chainState ''m_right'' = Inr [chainMove] \<and> chainMove \<in> set [chainMove]
   \<and> captureSteps chainMove = Some [[''m_center''], [''2,4'']]
   \<and> set ([[''m_center''], [''2,4'']] ! 0) \<inter> set ([[''m_center''], [''2,4'']] ! 1) = {}
   \<and> distinct (concat [[''m_center''], [''2,4'']])
   \<and> fromN chainMove \<notin> set (concat [[''m_center''], [''2,4'']])
   \<and> toN chainMove \<notin> set (concat [[''m_center''], [''2,4'']])"
  using capture_groups_disjoint [OF chain_moves, of chainMove] chain_moves
  by (simp add: chainMove_def)

text \<open>
  C6. Applying a move returned by \<open>getValidMoves\<close>, with \<open>simulateMove\<close> or with
  \<open>executeMove\<close>, keeps the number of pieces of both sides together: the keys of the
  piece map lose the source and gain the destination, and nothing else changes.
\<close>

theorem move_preserves_piece_count:
  assumes "distinct (map fst (pieces state))"
    and "getValidMoves state fromId = Inr moves" and "m \<in> set moves"
  shows "\<exists>s' s''. simulateMove state m = Inr s' \<and> executeMove state m = Inr s''
           \<and> countPieces (pieces s') Black + countPieces (pieces s') White
               = countPieces (pieces state) Black + countPieces (pieces state) White
           \<and> countPieces (pieces s'') Black + countPieces (pieces s'') White
               = countPieces (pieces state) Black + countPieces (pieces state) White
           \<and> fst ` set (pieces s') = insert (toN m) (fst ` set (pieces state) - {fromN m})
           \<and> fst ` set (pieces s'') = insert (toN m) (fst ` set (pieces state) - {fromN m})"
proof -
  from assms(2,3) obtain pc caps steps where
    pc: "map_of (pieces state) fromId = Some pc"
    and e: "map_of (pieces state) (toN m) = None"
    and m: "m = \<lparr>fromN = fromId, toN = toN m, captures = Some caps, captureSteps = Some steps\<rparr>"
    by (rule getValidMoves_elem)
  have fr: "fromN m = fromId" and cp: "captures m = Some caps" and st: "captureSteps m = Some steps"
    by (subst m, simp)+
  let ?moved = "AList.update (toN m) pc (AList.delete (fromN m) (pieces state))"
  have len: "length ?moved = length (pieces state)"
    using length_moved [OF assms(1) _ e] pc fr by simp
  from simulateMove_pieces [of state m pc] pc fr cp obtain s' where
    s': "simulateMove state m = Inr s'"
        "pieces s' = foldl (\<lambda>ps capId. flipPiece (currentPlayer state) capId ps) ?moved caps"
    by auto
  from executeMove_pieces [of state m pc] pc fr st obtain s'' where
    s'': "executeMove state m = Inr s''"
         "pieces s'' = foldl (\<lambda>ps capId. flipPiece (currentPlayer state) capId ps) ?moved
                         (concat steps)"
    by auto
  have "length (pieces s') = length (pieces state)" "length (pieces s'') = length (pieces state)"
    using s'(2) s''(2) len by simp_all
  then have "countPieces (pieces s') Black + countPieces (pieces s') White
               = countPieces (pieces state) Black + countPieces (pieces state) White"
    "countPieces (pieces s'') Black + countPieces (pieces s'') White
               = countPieces (pieces state) Black + countPieces (pieces state) White"
    by (simp_all add: count_total)
  moreover have "fst ` set (pieces s') = insert (toN m) (fst ` set (pieces state) - {fromN m})"
    "fst ` set (pieces s'') = insert (toN m) (fst ` set (pieces state) - {fromN m})"
    using s'(2) s''(2) by (simp_all add: keys_flips keys_moved)
  ultimately show ?thesis using s'(1) s''(1) by blast
qed

lemma chain_simulate:
  "simulateMove chainState chainMove =
     Inr \<lparr>pieces = [(''m_bottom'', blackPiece), (''2,3'', blackPiece),
                    (''m_center'', \<lparr>piece_id = ''w'', player = Black\<rparr>),
                    (''2,4'', \<lparr>piece_id = ''w'', player = Black\<rparr>), (''m_top'', blackPiece)],
          currentPlayer = White, winner = None, history = [], turnCount = 1\<rparr>"
  by (simp add: simulateMove_def chainState_def chainMove_def flipPiece_def blackPiece_def
      whitePiece_def)

theorem move_preserves_piece_count_witness:
  "distinct (map fst (pieces chainState))
   \<and> getValidMoves chainState ''m_right'' = Inr [chainMove] \<and> chainMove \<in> set [chainMove]
   \<and> (\<exists>s' s''. simulateMove chainState chainMove = Inr s'
         \<and> executeMove chainState chainMove = Inr s''
         \<and> countPieces (pieces s') Black + countPieces (pieces s') White = 5
         \<and> countPieces (pieces s'') Black + countPieces (pieces s'') White = 5
         \<and> fst ` set (pieces s') = {''m_top'', ''m_bottom'', ''2,3'', ''m_center'', ''2,4''}
         \<and> fst ` set (pieces s'') = {''m_top'', ''m_bottom'', ''2,3'', ''m_center'', ''2,4''})"
proof -
  have d: "distinct (map fst (pieces chainState))" by (simp add: chainState_def)
  have c: "countPieces (pieces chainState) Black + countPieces (pieces chainState) White = 5"
    by (simp add: countPieces_def chainState_def blackPiece_def whitePiece_def)
  have k: "insert (toN chainMove) (fst ` set (pieces chainState) - {fromN chainMove})
           = {''m_top'', ''m_bottom'', ''2,3'', ''m_center'', ''2,4''}"
    by (auto simp: chainState_def chainMove_def)
  show ?thesis
    using move_preserves_piece_count [OF d chain_moves, of chainMove] d chain_moves c k
    by simp
qed

text \<open>
  C7. For a move returned by \<open>getValidMoves\<close>, flipping its capture groups one after the
  other, as \<open>executeMove\<close> does, ends in the same piece map as flipping its whole capture
  set at once, as \<open>simulateMove\<close> does.
\<close>

theorem staged_captures_equal_atomic:
  assumes "getValidMoves state fromId = Inr moves" and "m \<in> set moves"
  shows "\<exists>a b. executeMove state m = Inr a \<and> simulateMove state m = Inr b
           \<and> pieces a = pieces b"
proof -
  from assms obtain pc caps steps where
    pc: "map_of (pieces state) fromId = Some pc" "player pc = currentPlayer state"
    and e: "map_of (pieces state) (toN m) = None"
    and cs: "calculateRecursiveCaptures state fromId (toN m) = Inr (caps, steps)"
    and m: "m = \<lparr>fromN = fromId, toN = toN m, captures = Some caps, captureSteps = Some steps\<rparr>"
    by (rule getValidMoves_elem)
  have fr: "fromN m = fromId" and cp: "captures m = Some caps" and st: "captureSteps m = Some steps"
    by (subst m, simp)+
  have cc: "concat steps = caps" using calc_result [OF cs pc e] by simp
  from simulateMove_pieces [of state m pc] executeMove_pieces [of state m pc] pc(1) fr cp st cc
  show ?thesis by auto
qed

lemma chain_execute:
  "executeMove chainState chainMove =
     Inr \<lparr>pieces = [(''m_bottom'', blackPiece), (''2,3'', blackPiece),
                    (''m_center'', \<lparr>piece_id = ''w'', player = Black\<rparr>),
                    (''2,4'', \<lparr>piece_id = ''w'', player = Black\<rparr>), (''m_top'', blackPiece)],
          currentPlayer = White, winner = Some Black,
          history = [\<lparr>snap_pieces = pieces chainState, snap_currentPlayer = Black\<rparr>],
          turnCount = 1\<rparr>"
  by (simp add: executeMove_def chainState_def chainMove_def flipPiece_def blackPiece_def
      whitePiece_def checkWinCondition_def Let_def)

theorem staged_captures_equal_atomic_witness:
  "getValidMoves chainState ''m_right'' = Inr [chainMove] \<and> chainMove \<in> set [chainMove]
   \<and> (\<exists>a b. executeMove chainState chainMove = Inr a \<and> simulateMove chainState chainMove = Inr b
          \<and> pieces a = pieces b
          \<and> pieces b = [(''m_bottom'', blackPiece), (''2,3'', blackPiece),
                    (''m_center'', \<lparr>piece_id = ''w'', player = Black\<rparr>),
                    (''2,4'', \<lparr>piece_id = ''w'', player = Black\<rparr>), (''m_top'', blackPiece)])"
  using staged_captures_equal_atomic [OF chain_moves, of chainMove] chain_moves chain_simulate
  by auto

text \<open>
  C8. Every move returned by \<open>getValidMoves\<close> starts at the selected node and ends on a
  node that is empty in the given position and that a slide reaches: a path from the
  source whose first node is an empty neighbour of the source and whose further nodes are
  each an empty neighbour of the node before, other than the node before that, and
  collinear with the two nodes before.
\<close>

theorem destination_empty_and_reachable:
  assumes "getValidMoves state fromId = Inr moves" and "m \<in> set moves"
  shows "fromN m = fromId \<and> map_of (pieces state) (toN m) = None
         \<and> (\<exists>path. validSlide (pieces state) fromId path \<and> last path = toN m)"
proof -
  from assms obtain caps steps where
    e: "map_of (pieces state) (toN m) = None"
    and p: "\<exists>path. validSlide (pieces state) fromId path \<and> last path = toN m"
    and m: "m = \<lparr>fromN = fromId, toN = toN m, captures = Some caps, captureSteps = Some steps\<rparr>"
    by (rule getValidMoves_elem)
  have "fromN m = fromId" by (subst m) simp
  then show ?thesis using e p by simp
qed

theorem destination_empty_and_reachable_witness:
  "getValidMoves chainState ''m_right'' = Inr [chainMove] \<and> chainMove \<in> set [chainMove]
   \<and> fromN chainMove = ''m_right'' \<and> map_of (pieces chainState) (toN chainMove) = None
   \<and> (\<exists>path. validSlide (pieces chainState) ''m_right'' path \<and> last path = toN chainMove)"
  using destination_empty_and_reachable [OF chain_moves, of chainMove] chain_moves
  by simp

section \<open>The search returns\<close>

subsection \<open>Move generation does not fail on the board\<close>

lemma onBoard_key: "onBoard ps \<Longrightarrow> (k, pc) \<in> set ps \<Longrightarrow> map_of BOARD_NODES k \<noteq> None"
  unfolding onBoard_def list_all_iff by blast

lemma onBoard_keys: "onBoard ps \<longleftrightarrow> (\<forall>k\<in>fst ` set ps. map_of BOARD_NODES k \<noteq> None)"
  unfolding onBoard_def list_all_iff by force

lemma foldE_total:
  assumes "\<And>s x. x \<in> set xs \<Longrightarrow> \<exists>s'. f s x = Inr s'"
  shows "\<exists>s'. foldE f s xs = Inr s'"
  using assms
proof (induction xs arbitrary: s)
  case Nil
  then show ?case by simp
next
  case (Cons x xs)
  from Cons.prems [of x s] obtain s1 where s1: "f s x = Inr s1" by auto
  have "\<exists>s'. foldE f s1 xs = Inr s'" by (rule Cons.IH) (simp add: Cons.prems)
  then show ?case by (simp add: s1)
qed

lemma collect_total:
  assumes "\<And>x. x \<in> set xs \<Longrightarrow> \<exists>ys. f x = Inr ys"
  shows "\<exists>ys. collect f xs = Inr ys"
  using assms
proof (induction xs)
  case Nil
  then show ?case by simp
next
  case (Cons x xs)
  from Cons.prems [of x] obtain a where a: "f x = Inr a" by auto
  have "\<exists>ys. collect f xs = Inr ys" by (rule Cons.IH) (simp add: Cons.prems)
  then obtain b where "collect f xs = Inr b" ..
  then show ?case by (simp add: a)
qed

lemma neighbor_known: "n \<in> set (neighborsOf c) \<Longrightarrow> map_of BOARD_NODES n \<noteq> None"
proof -
  assume n: "n \<in> set (neighborsOf c)"
  then obtain nd where nd: "map_of BOARD_NODES c = Some nd" "n \<in> set (neighbors nd)"
    by (cases "map_of BOARD_NODES c") (simp_all add: neighborsOf_def)
  then show ?thesis using board_node_ok(3) [OF nd(1)] by blast
qed

lemma clampOuter_total:
  "map_of BOARD_NODES n1 \<noteq> None \<Longrightarrow> \<exists>r. clampOuter ps c me res n1 = Inr r"
  by (auto simp: clampOuter_def)

lemma checkClamp_total: "\<exists>r. checkClamp ps c me = Inr r"
proof (cases "map_of BOARD_NODES c")
  case None
  then show ?thesis by (simp add: checkClamp_def)
next
  case (Some nd)
  have "\<exists>r. foldE (clampOuter ps c me) [] (neighbors nd) = Inr r"
  proof (rule foldE_total)
    fix s x
    assume "x \<in> set (neighbors nd)"
    then have "map_of BOARD_NODES x \<noteq> None" using board_node_ok(3) [OF Some] by blast
    then show "\<exists>s'. clampOuter ps c me s x = Inr s'" by (rule clampOuter_total)
  qed
  then show ?thesis by (simp add: checkClamp_def Some)
qed

lemma centerTargets_total: "\<exists>r. centerTargets ps c me = Inr r"
  using checkClamp_total [of ps c me] by (auto simp: centerTargets_def Let_def)

lemma processCenter_total: "\<exists>st'. processCenter me st c = Inr st'"
proof -
  obtain r where
    "centerTargets (c_pieces (st\<lparr>processedNodes := insert c (processedNodes st)\<rparr>)) c me = Inr r"
    using centerTargets_total by blast
  then show ?thesis by (simp add: processCenter_def Let_def)
qed

lemma capturePass_total: "\<exists>st. capturePass me ps tot processed act = Inr st"
  unfolding capturePass_def by (rule foldE_total) (rule processCenter_total)

lemma cascade_total: "\<exists>r. cascade me ps act tot steps processed = Inr r"
proof (induction me ps act tot steps processed rule: cascade.induct)
  case (1 me ps act tot steps processed)
  show ?case
  proof (cases "length act > 0")
    case True
    obtain st where st: "capturePass me ps tot processed act = Inr st"
      using capturePass_total by blast
    from "1.IH" [OF True st] obtain r where
      "cascade me (c_pieces st) (nextBatch st) (totalCaptures st)
         (if length (currentStepFlips st) > 0 then steps @ [currentStepFlips st] else steps)
         (processedNodes st) = Inr r" ..
    then show ?thesis by (subst cascade.simps) (simp add: True st)
  next
    case False
    then show ?thesis by (subst cascade.simps) simp
  qed
qed

lemma moveTo_total: "\<exists>ms. moveTo s f t = Inr ms"
proof -
  obtain r where "calculateRecursiveCaptures s f t = Inr r"
    unfolding calculateRecursiveCaptures_def using cascade_total by blast
  then show ?thesis by (cases r) (simp add: moveTo_def)
qed

lemma slide_total:
  "map_of BOARD_NODES cur \<noteq> None \<Longrightarrow> \<exists>ds. slide i ps prev cur = Inr ds"
proof (induction i ps prev cur rule: slide.induct)
  case (1 i ps prevId currentId)
  from "1.prems" obtain nd where nd: "map_of BOARD_NODES currentId = Some nd" by auto
  show ?case
  proof (cases "i < 10")
    case False
    then show ?thesis by (subst slide.simps) simp
  next
    case lt: True
    show ?thesis
    proof (cases "findNextInLine prevId currentId (neighbors nd)")
      case None
      then show ?thesis by (subst slide.simps) (simp add: lt nd)
    next
      case (Some nx)
      then have "nx \<in> set (neighbors nd)" using findNextInLine_Some by blast
      then have k: "map_of BOARD_NODES nx \<noteq> None" using board_node_ok(3) [OF nd] by blast
      show ?thesis
      proof (cases "nx \<noteq> [] \<and> map_of ps nx = None")
        case go: True
        from "1.IH" [OF lt nd Some go k] obtain ds where
          "slide (i + 1) ps currentId nx = Inr ds" ..
        then show ?thesis using go by (subst slide.simps) (simp add: lt nd Some)
      next
        case False
        then show ?thesis by (subst slide.simps) (auto simp: lt nd Some)
      qed
    qed
  qed
qed

lemma destinationsVia_total:
  "map_of BOARD_NODES nb \<noteq> None \<Longrightarrow> \<exists>ds. destinationsVia ps f nb = Inr ds"
proof -
  assume "map_of BOARD_NODES nb \<noteq> None"
  then obtain ds where "slide 0 ps f nb = Inr ds" using slide_total by blast
  then show ?thesis by (simp add: destinationsVia_def)
qed

lemma getValidMoves_total:
  assumes "map_of (pieces s) k \<noteq> None \<Longrightarrow> map_of BOARD_NODES k \<noteq> None"
  shows "\<exists>ms. getValidMoves s k = Inr ms"
proof (cases "map_of (pieces s) k")
  case None
  then show ?thesis by (simp add: getValidMoves_def)
next
  case (Some pc)
  with assms obtain nd where nd: "map_of BOARD_NODES k = Some nd" by auto
  have "\<exists>ds. collect (destinationsVia (pieces s) k) (neighbors nd) = Inr ds"
  proof (rule collect_total)
    fix x
    assume "x \<in> set (neighbors nd)"
    then have "map_of BOARD_NODES x \<noteq> None" using board_node_ok(3) [OF nd] by blast
    then show "\<exists>ys. destinationsVia (pieces s) k x = Inr ys" by (rule destinationsVia_total)
  qed
  then obtain ds where ds: "collect (destinationsVia (pieces s) k) (neighbors nd) = Inr ds" ..
  have "\<exists>ms. collect (moveTo s k) ds = Inr ms"
    by (rule collect_total) (rule moveTo_total)
  then show ?thesis by (simp add: getValidMoves_def Some nd ds)
qed

lemma getAllMoves_total:
  assumes "onBoard (pieces s)"
  shows "\<exists>ms. getAllMoves s p = Inr ms"
  unfolding getAllMoves_def
proof (rule collect_total)
  fix x
  assume x: "x \<in> set (pieces s)"
  obtain k pc where e: "x = (k, pc)" by (cases x)
  have "map_of BOARD_NODES k \<noteq> None" using onBoard_key [OF assms] x e by blast
  then have "\<exists>ms. getValidMoves s k = Inr ms" by (intro getValidMoves_total)
  then show "\<exists>ys. (case x of (nodeId, piece) \<Rightarrow>
                      if player piece = p then getValidMoves s nodeId else Inr []) = Inr ys"
    by (simp add: e)
qed

subsection \<open>Generated moves keep the pieces on the board\<close>

lemma chainOk_known:
  "chainOk ps p c q \<Longrightarrow> map_of BOARD_NODES c \<noteq> None
   \<Longrightarrow> map_of BOARD_NODES (last (c # q)) \<noteq> None"
proof (induction q arbitrary: p c)
  case Nil
  then show ?case by simp
next
  case (Cons n q)
  from Cons.prems(1) have n: "n \<in> set (neighborsOf c)" and ch: "chainOk ps c n q" by simp_all
  have "map_of BOARD_NODES (last (n # q)) \<noteq> None"
    by (rule Cons.IH [OF ch neighbor_known [OF n]])
  then show ?case by simp
qed

lemma validSlide_known:
  assumes "validSlide ps f path"
  shows "map_of BOARD_NODES (last path) \<noteq> None"
proof (cases path)
  case Nil
  with assms show ?thesis by (simp add: validSlide_def)
next
  case (Cons b rest)
  with assms have b: "b \<in> set (neighborsOf f)" and ch: "chainOk ps f b rest"
    by (simp_all add: validSlide_def)
  show ?thesis unfolding Cons by (rule chainOk_known [OF ch neighbor_known [OF b]])
qed

lemma getAllMoves_elem:
  assumes "getAllMoves s p = Inr ms" "m \<in> set ms"
  shows "map_of (pieces s) (fromN m) \<noteq> None \<and> map_of BOARD_NODES (toN m) \<noteq> None"
proof -
  from collect_mem [OF assms [unfolded getAllMoves_def]] obtain x zs where
    x: "x \<in> set (pieces s)"
    and zs: "(case x of (nodeId, piece) \<Rightarrow>
               if player piece = p then getValidMoves s nodeId else Inr []) = Inr zs"
    and m: "m \<in> set zs"
    by blast
  obtain k pc where e: "x = (k, pc)" by (cases x)
  from zs m e have gv: "getValidMoves s k = Inr zs" by (auto split: if_splits)
  from gv m obtain pc' caps steps where
    pc': "map_of (pieces s) k = Some pc'"
    and path: "\<exists>path. validSlide (pieces s) k path \<and> last path = toN m"
    and mm: "m = \<lparr>fromN = k, toN = toN m, captures = Some caps, captureSteps = Some steps\<rparr>"
    by (rule getValidMoves_elem)
  have f: "fromN m = k" by (subst mm) simp
  from path obtain q where "validSlide (pieces s) k q" "last q = toN m" by blast
  then have "map_of BOARD_NODES (toN m) \<noteq> None" using validSlide_known by metis
  then show ?thesis using pc' f by simp
qed

lemma simulateMove_onBoard:
  assumes "map_of (pieces s) (fromN m) \<noteq> None" "map_of BOARD_NODES (toN m) \<noteq> None"
    "onBoard (pieces s)"
  shows "\<exists>s'. simulateMove s m = Inr s' \<and> onBoard (pieces s')"
proof -
  from assms(1) obtain pc where pc: "map_of (pieces s) (fromN m) = Some pc" by auto
  from simulateMove_pieces [OF pc] obtain s' where
    s': "simulateMove s m = Inr s'"
    and ps: "pieces s' = (case captures m of
                 None \<Rightarrow> AList.update (toN m) pc (AList.delete (fromN m) (pieces s))
               | Some caps \<Rightarrow>
                   foldl (\<lambda>ps capId. flipPiece (currentPlayer s) capId ps)
                     (AList.update (toN m) pc (AList.delete (fromN m) (pieces s))) caps)"
    by blast
  have "fst ` set (pieces s') = insert (toN m) (fst ` set (pieces s) - {fromN m})"
    unfolding ps by (cases "captures m") (simp_all only: option.case keys_flips keys_moved)
  then have "onBoard (pieces s')"
    using assms(2,3) unfolding onBoard_keys by auto
  then show ?thesis using s' by blast
qed

subsection \<open>Evaluation and the plain search return\<close>

lemma evalPiece_total:
  "map_of BOARD_NODES (fst e) \<noteq> None \<Longrightarrow> \<exists>r. evalPiece ai sc e = Inr r"
  by (cases e) (auto simp: evalPiece_def)

lemma evaluate_total:
  assumes "onBoard (pieces s)"
  shows "\<exists>v. evaluate s ai = Inr v"
proof -
  have "\<exists>r. foldE (evalPiece ai) 0 (pieces s) = Inr r"
  proof (rule foldE_total)
    fix sc x
    assume "x \<in> set (pieces s)"
    then have "map_of BOARD_NODES (fst x) \<noteq> None"
      using onBoard_key [OF assms, of "fst x" "snd x"] by simp
    then show "\<exists>s'. evalPiece ai sc x = Inr s'" by (rule evalPiece_total)
  qed
  then show ?thesis by (auto simp: evaluate_def Let_def)
qed

lemma childScores_total:
  assumes "\<And>m. m \<in> set ms \<Longrightarrow> \<exists>s'. simulateMove s m = Inr s' \<and> (\<exists>v. child s' = Inr v)"
  shows "\<exists>vs. childScores child s ms = Inr vs"
  using assms
proof (induction ms)
  case Nil
  then show ?case by simp
next
  case (Cons m ms)
  from Cons.prems [of m] obtain s' v where sv: "simulateMove s m = Inr s'" "child s' = Inr v"
    by auto
  have "\<exists>vs. childScores child s ms = Inr vs" by (rule Cons.IH) (simp add: Cons.prems)
  then obtain vs where "childScores child s ms = Inr vs" ..
  then show ?case by (simp add: sv)
qed

lemma plainMinimax_total:
  "onBoard (pieces s) \<Longrightarrow> 0 \<le> d \<Longrightarrow> nat d < n \<Longrightarrow> \<exists>v. plainMinimax n s d b ai = Inr v"
proof (induction n arbitrary: s d b)
  case 0
  then show ?case by simp
next
  case (Suc n)
  show ?case
  proof (cases "checkWinCondition s \<noteq> None \<or> d = 0")
    case True
    then show ?thesis using evaluate_total [OF Suc.prems(1), of ai] by auto
  next
    case False
    then have d: "0 \<le> d - 1" "nat (d - 1) < n" using Suc.prems(2,3) by auto
    let ?p = "if b then ai else (if ai = Black then White else Black)"
    obtain ms where ms: "getAllMoves s ?p = Inr ms"
      using getAllMoves_total [OF Suc.prems(1)] by blast
    show ?thesis
    proof (cases "length ms = 0")
      case True
      then show ?thesis using False ms evaluate_total [OF Suc.prems(1), of ai]
        by (auto simp: Let_def)
    next
      case ne: False
      have "\<exists>vs. childScores (\<lambda>s'. plainMinimax n s' (d - 1) (\<not> b) ai) s ms = Inr vs"
      proof (rule childScores_total)
        fix m
        assume "m \<in> set ms"
        from getAllMoves_elem [OF ms this] simulateMove_onBoard [of s m] Suc.prems(1)
        obtain s' where s': "simulateMove s m = Inr s'" "onBoard (pieces s')" by blast
        from Suc.IH [OF s'(2) d] have "\<exists>v. plainMinimax n s' (d - 1) (\<not> b) ai = Inr v" .
        then show "\<exists>s'. simulateMove s m = Inr s'
                     \<and> (\<exists>v. plainMinimax n s' (d - 1) (\<not> b) ai = Inr v)"
          using s'(1) by blast
      qed
      then obtain vs where
        "childScores (\<lambda>s'. plainMinimax n s' (d - 1) (\<not> b) ai) s ms = Inr vs" ..
      then show ?thesis using False ms ne by (auto simp: Let_def)
    qed
  qed
qed

lemma plainBestScore_total:
  assumes "onBoard (pieces s)" "1 \<le> d" "nat d \<le> n"
  shows "\<exists>v. plainBestScore n s d ai = Inr v"
proof -
  obtain ms where ms: "getAllMoves s ai = Inr ms"
    using getAllMoves_total [OF assms(1)] by blast
  have d: "0 \<le> d - 1" "nat (d - 1) < n" using assms(2,3) by auto
  have "\<exists>vs. childScores (\<lambda>s'. plainMinimax n s' (d - 1) False ai) s ms = Inr vs"
  proof (rule childScores_total)
    fix m
    assume "m \<in> set ms"
    from getAllMoves_elem [OF ms this] simulateMove_onBoard [of s m] assms(1)
    obtain s' where s': "simulateMove s m = Inr s'" "onBoard (pieces s')" by blast
    from plainMinimax_total [OF s'(2) d] have "\<exists>v. plainMinimax n s' (d - 1) False ai = Inr v" .
    then show "\<exists>s'. simulateMove s m = Inr s'
                 \<and> (\<exists>v. plainMinimax n s' (d - 1) False ai = Inr v)"
      using s'(1) by blast
  qed
  then obtain vs where "childScores (\<lambda>s'. plainMinimax n s' (d - 1) False ai) s ms = Inr vs" ..
  then show ?thesis by (simp add: plainBestScore_def ms)
qed

section \<open>The search\<close>

lemma tie_moves_a: "getValidMoves tieState ''1,4'' = Inr (take 5 tieMoves)"
  by (simp add: eval_rules tieState_def tieMoves_def)

lemma tie_moves_b: "getValidMoves tieState ''m_bottom'' = Inr (drop 5 tieMoves)"
  by (simp add: eval_rules tieState_def tieMoves_def)

lemma tie_all: "getAllMoves tieState Black = Inr tieMoves"
proof -
  have "pieces tieState = [(''1,4'', blackPiece), (''m_bottom'', blackPiece),
                (''2,4'', whitePiece), (''m_right'', whitePiece)]"
    by (simp add: tieState_def)
  then show ?thesis
    by (simp add: getAllMoves_def tie_moves_a tie_moves_b blackPiece_def whitePiece_def)
qed

subsection \<open>Scores of the root moves\<close>

lemma scored_rootScore:
  "scored (\<lambda>s'. minimax n s' (d - 1) False NegInf PosInf ai) s m v
     \<longleftrightarrow> rootScore n s d ai m = Inr v"
  by (auto simp: scored_def rootScore_def split: sum.splits)

lemma scored_unique: "scored child s m v \<Longrightarrow> scored child s m w \<Longrightarrow> v = w"
  by (auto simp: scored_def)

lemma list_all2_scored_map:
  assumes "list_all2 (scored child s) ms vs"
  shows "vs = map (\<lambda>m. THE v. scored child s m v) ms"
  using assms
proof (induction rule: list_all2_induct)
  case Nil
  then show ?case by simp
next
  case (Cons m ms v vs)
  have "(THE w. scored child s m w) = v"
    using Cons.hyps(1) scored_unique by (intro the_equality) auto
  then show ?case using Cons.IH by simp
qed

lemma scored_map_all2:
  assumes "\<forall>m\<in>set ms. \<exists>v. scored child s m v"
  shows "list_all2 (scored child s) ms (map (\<lambda>m. THE v. scored child s m v) ms)"
  using assms
proof (induction ms)
  case Nil
  then show ?case by simp
next
  case (Cons m ms)
  from Cons.prems obtain v where v: "scored child s m v" by auto
  have "(THE w. scored child s m w) = v"
    using v scored_unique by (intro the_equality) auto
  then show ?case using v Cons by simp
qed

lemma foldl_max_Max:
  "foldl max (a :: 'a :: linorder) xs = Max (insert a (set xs))"
proof (induction xs arbitrary: a)
  case Nil
  then show ?case by simp
next
  case (Cons x xs)
  have "foldl max (max a x) xs = max a (foldl max x xs)" by (rule foldl_max_acc)
  also have "\<dots> = max a (Max (insert x (set xs)))" by (simp add: Cons.IH)
  also have "\<dots> = Max (insert a (insert x (set xs)))" by simp
  finally show ?case by simp
qed

lemma set_sortMoves [simp]: "set (sortMoves ms) = set ms"
  by (simp add: sortMoves_def)

lemma length_sortMoves [simp]: "length (sortMoves ms) = length ms"
  by (simp add: sortMoves_def)

lemma root_score_sound:
  assumes "plainBestScore n s d ai = Inr v"
  shows "\<exists>bm. bestSearch n s d ai = Inr (bm, v)"
proof -
  let ?plain = "\<lambda>s'. plainMinimax n s' (d - 1) False ai"
  let ?ab = "\<lambda>s'. minimax n s' (d - 1) False NegInf PosInf ai"
  from assms obtain ms where ms: "getAllMoves s ai = Inr ms"
    by (cases "getAllMoves s ai") (simp_all add: plainBestScore_def)
  from assms ms obtain vs where vs: "childScores ?plain s ms = Inr vs"
    and v: "v = foldl max NegInf vs"
    by (auto simp: plainBestScore_def split: sum.splits)
  have "list_all2 (scored ?plain s) ms vs" by (rule childScores_scored [OF vs])
  then have ab: "list_all2 (scored ?ab s) ms vs"
  proof (rule list_all2_mono)
    fix m w assume "scored ?plain s m w"
    then show "scored ?ab s m w"
      unfolding scored_def using minimax_full_window by blast
  qed
  then have vs_eq: "vs = map (\<lambda>m. THE v. scored ?ab s m v) ms" by (rule list_all2_scored_map)
  have "\<forall>m\<in>set ms. \<exists>w. scored ?ab s m w"
    using ab by (metis in_set_conv_nth list_all2_conv_all_nth)
  then have "\<forall>m\<in>set (sortMoves ms). \<exists>w. scored ?ab s m w" by simp
  then have sorted: "list_all2 (scored ?ab s) (sortMoves ms)
                       (map (\<lambda>m. THE v. scored ?ab s m v) (sortMoves ms))"
    by (rule scored_map_all2)
  from bestLoop_first [OF sorted, of None NegInf] obtain bm where
    "bestLoop ?ab s (sortMoves ms) None NegInf
       = Inr (bm, foldl max NegInf (map (\<lambda>m. THE v. scored ?ab s m v) (sortMoves ms)))"
    by blast
  moreover have "foldl max NegInf (map (\<lambda>m. THE v. scored ?ab s m v) (sortMoves ms)) = v"
    unfolding v foldl_max_Max by (subst vs_eq) simp
  ultimately show ?thesis using ms by (simp add: bestSearch_def)
qed

text \<open>
  C2. Whenever plain depth-limited minimax over the generated moves, unordered and
  unpruned, gives the root a score, the search of \<open>getBestMove\<close>, which orders the root
  moves by capture count and prunes with alpha and beta below the root, computes the same
  score as its \<open>bestScore\<close>. Both searches return when the pieces stand on nodes of the
  board, the depth is at least 1 and the stack holds as many frames as the depth.
\<close>

theorem alpha_beta_root_score_equals_minimax:
  "(\<forall>v. plainBestScore n s d ai = Inr v \<longrightarrow> (\<exists>bm. bestSearch n s d ai = Inr (bm, v)))
   \<and> (onBoard (pieces s) \<and> 1 \<le> d \<and> nat d \<le> n \<longrightarrow>
        (\<exists>v bm. plainBestScore n s d ai = Inr v \<and> bestSearch n s d ai = Inr (bm, v)))"
proof (intro conjI allI impI)
  fix v
  assume "plainBestScore n s d ai = Inr v"
  then show "\<exists>bm. bestSearch n s d ai = Inr (bm, v)"
    by (rule root_score_sound)
next
  assume a: "onBoard (pieces s) \<and> 1 \<le> d \<and> nat d \<le> n"
  then obtain v where v: "plainBestScore n s d ai = Inr v"
    using plainBestScore_total [of s d n ai] by blast
  from root_score_sound [OF v] obtain bm where
    "bestSearch n s d ai = Inr (bm, v)" ..
  with v show "\<exists>v bm. plainBestScore n s d ai = Inr v \<and> bestSearch n s d ai = Inr (bm, v)"
    by blast
qed

lemma getBestMove_total:
  assumes "onBoard (pieces s)" "1 \<le> d" "nat d \<le> n"
  shows "\<exists>r. getBestMove n s d ai = Inr r"
proof -
  obtain v where v: "plainBestScore n s d ai = Inr v"
    using plainBestScore_total [OF assms] by blast
  from root_score_sound [OF v] obtain bm where
    "bestSearch n s d ai = Inr (bm, v)" ..
  then show ?thesis by (simp add: getBestMove_def)
qed

subsection \<open>Evaluating the tie position\<close>

lemma minimax_leaf: "minimax (Suc k) s 0 isMax a b ai = evaluate s ai"
  by simp

lemma plainMinimax_leaf: "plainMinimax (Suc k) s 0 isMax ai = evaluate s ai"
  by simp

lemma maoceIds_table: "maoceIds = [''m_top'', ''m_right'', ''m_bottom'', ''m_center'']"
  by (simp add: maoceIds_def BOARD_NODES_table)

lemmas score_rules = simulateMove_def flipPiece_def evaluate_def checkWinCondition_def
  isAllInMaoce_def maoceIds_table evalPiece_def node_lookup Let_def
  WIN_def LOSS_def PIECE_VALUE_def MAOCE_PENALTY_def blackPiece_def whitePiece_def

lemma tie_leaves:
  "map (\<lambda>m. case simulateMove tieState m of Inl e \<Rightarrow> Inl e | Inr s' \<Rightarrow> evaluate s' Black) tieMoves
   = [Inr (Fin 0), Inr (Fin 10000), Inr (Fin 0), Inr (Fin 0), Inr (Fin 0), Inr (Fin 10000),
      Inr (Fin 0)]"
  by (simp add: tieMoves_def tieState_def score_rules)

lemma tie_scores:
  "map (rootScore 1 tieState 1 Black) tieMoves
   = [Inr (Fin 0), Inr (Fin 10000), Inr (Fin 0), Inr (Fin 0), Inr (Fin 0), Inr (Fin 10000),
      Inr (Fin 0)]"
proof -
  have "rootScore 1 tieState 1 Black
        = (\<lambda>m. case simulateMove tieState m of Inl e \<Rightarrow> Inl e | Inr s' \<Rightarrow> evaluate s' Black)"
    by (rule ext) (simp add: rootScore_def split: sum.splits)
  then show ?thesis using tie_leaves by simp
qed

lemma childScores_map:
  "map (\<lambda>m. case simulateMove s m of Inl e \<Rightarrow> Inl e | Inr s' \<Rightarrow> child s') ms = map Inr vs
   \<Longrightarrow> childScores child s ms = Inr vs"
proof (induction ms arbitrary: vs)
  case Nil
  then show ?case by simp
next
  case (Cons m ms)
  from Cons.prems obtain v vs' where vs: "vs = v # vs'" by (cases vs) auto
  with Cons.prems have
    h: "(case simulateMove s m of Inl e \<Rightarrow> Inl e | Inr s' \<Rightarrow> child s') = Inr v"
    and t: "map (\<lambda>m. case simulateMove s m of Inl e \<Rightarrow> Inl e | Inr s' \<Rightarrow> child s') ms = map Inr vs'"
    by simp_all
  from h obtain s' where "simulateMove s m = Inr s'" "child s' = Inr v"
    by (auto split: sum.splits)
  then show ?case using Cons.IH [OF t] vs by simp
qed

lemma tie_plain: "plainBestScore 1 tieState 1 Black = Inr (Fin 10000)"
proof -
  have "(\<lambda>s'. plainMinimax 1 s' (1 - 1) False Black) = (\<lambda>s'. evaluate s' Black)"
    by (rule ext) simp
  moreover have "childScores (\<lambda>s'. evaluate s' Black) tieState tieMoves
        = Inr [Fin 0, Fin 10000, Fin 0, Fin 0, Fin 0, Fin 10000, Fin 0]"
    by (rule childScores_map) (use tie_leaves in simp)
  ultimately show ?thesis by (simp add: plainBestScore_def tie_all max_def)
qed

lemma tie_sorted:
  "sortMoves tieMoves
   = [tieMoves ! 5, tieMoves ! 1, tieMoves ! 0, tieMoves ! 2, tieMoves ! 3, tieMoves ! 4,
      tieMoves ! 6]"
  by (simp add: sortMoves_def tieMoves_def captureCount_def)

lemma bestLoop_step:
  "bestLoop (\<lambda>s'. minimax n s' (d - 1) False NegInf PosInf ai) s (m # ms) bm bs
   = (case rootScore n s d ai m of
        Inl e \<Rightarrow> Inl e
      | Inr score \<Rightarrow>
          if score > bs
          then bestLoop (\<lambda>s'. minimax n s' (d - 1) False NegInf PosInf ai) s ms (Some m) score
          else bestLoop (\<lambda>s'. minimax n s' (d - 1) False NegInf PosInf ai) s ms bm bs)"
  by (simp add: rootScore_def split: sum.splits)

lemma tie_search: "bestSearch 1 tieState 1 Black = Inr (Some (tieMoves ! 5), Fin 10000)"
proof -
  have sc: "rootScore 1 tieState 1 Black (tieMoves ! 0) = Inr (Fin 0)"
    "rootScore 1 tieState 1 Black (tieMoves ! 1) = Inr (Fin 10000)"
    "rootScore 1 tieState 1 Black (tieMoves ! 2) = Inr (Fin 0)"
    "rootScore 1 tieState 1 Black (tieMoves ! 3) = Inr (Fin 0)"
    "rootScore 1 tieState 1 Black (tieMoves ! 4) = Inr (Fin 0)"
    "rootScore 1 tieState 1 Black (tieMoves ! 5) = Inr (Fin 10000)"
    "rootScore 1 tieState 1 Black (tieMoves ! 6) = Inr (Fin 0)"
    using tie_scores by (simp_all add: tieMoves_def)
  show ?thesis
    unfolding bestSearch_def tie_all sum.case tie_sorted
    by (simp only: bestLoop_step sc bestLoop.simps sum.case) (simp add: less_Score_def)
qed

lemma tie_best: "getBestMove 1 tieState 1 Black = Inr (Some (tieMoves ! 5))"
  unfolding getBestMove_def tie_search by simp

lemma tie_onBoard: "onBoard (pieces tieState)"
  by (simp add: onBoard_def tieState_def node_lookup)

theorem alpha_beta_root_score_equals_minimax_witness:
  "onBoard (pieces tieState) \<and> (1 :: int) \<le> 1 \<and> nat 1 \<le> (1 :: nat)
   \<and> plainBestScore 1 tieState 1 Black = Inr (Fin 10000)
   \<and> (\<exists>bm. bestSearch 1 tieState 1 Black = Inr (bm, Fin 10000))"
  using alpha_beta_root_score_equals_minimax [of 1 tieState 1 Black] tie_plain tie_onBoard
  by simp

text \<open>
  C5, as the claim states it, fails: in the position \<open>tieState\<close> with Black to move, at
  depth 1, the moves \<open>tieMoves ! 1\<close> and \<open>tieMoves ! 5\<close> both reach the maximal score
  10000; the first of them in generation order is \<open>tieMoves ! 1\<close>, and \<open>getBestMove\<close>
  returns \<open>tieMoves ! 5\<close>, which captures more.
\<close>

theorem best_move_generation_order_counterexample:
  "getAllMoves tieState Black = Inr tieMoves
   \<and> map (rootScore 1 tieState 1 Black) tieMoves
       = [Inr (Fin 0), Inr (Fin 10000), Inr (Fin 0), Inr (Fin 0), Inr (Fin 0), Inr (Fin 10000),
          Inr (Fin 0)]
   \<and> getBestMove 1 tieState 1 Black = Inr (Some (tieMoves ! 5))
   \<and> tieMoves ! 5 \<noteq> tieMoves ! 1"
  using tie_all tie_scores tie_best by (simp add: tieMoves_def)

lemma bestMove_first_maximal:
  assumes "getAllMoves s ai = Inr ms" and "getBestMove n s d ai = Inr r"
  shows "(r = None \<longleftrightarrow> ms = [])
         \<and> (\<forall>m. r = Some m \<longrightarrow>
               (\<exists>i<length ms. \<exists>v. sortMoves ms ! i = m \<and> rootScore n s d ai m = Inr v
                  \<and> (\<forall>j<length ms. \<exists>w. rootScore n s d ai (sortMoves ms ! j) = Inr w
                         \<and> w \<le> v \<and> (j < i \<longrightarrow> w < v))))"
proof -
  let ?ab = "\<lambda>s'. minimax n s' (d - 1) False NegInf PosInf ai"
  from assms obtain bs where run: "bestLoop ?ab s (sortMoves ms) None NegInf = Inr (r, bs)"
    by (auto simp: getBestMove_def bestSearch_def split: sum.splits)
  from bestLoop_childScores [OF run] obtain vs where "childScores ?ab s (sortMoves ms) = Inr vs"
    by blast
  then have all2: "list_all2 (scored ?ab s) (sortMoves ms) vs" by (rule childScores_scored)
  then have len: "length vs = length ms" by (simp add: list_all2_lengthD [symmetric])
  have sc: "\<And>j. j < length ms \<Longrightarrow> rootScore n s d ai (sortMoves ms ! j) = Inr (vs ! j)"
    using all2 by (simp add: list_all2_conv_all_nth scored_rootScore)
  have fin: "\<And>j. j < length ms \<Longrightarrow> NegInf < vs ! j"
  proof -
    fix j assume j: "j < length ms"
    from sc [OF j] obtain s' where "minimax n s' (d - 1) False NegInf PosInf ai = Inr (vs ! j)"
      by (auto simp: rootScore_def split: sum.splits)
    then have "isFin (vs ! j)" by (rule minimax_isFin)
    then show "NegInf < vs ! j" by (cases "vs ! j") (simp_all add: isFin_def less_Score_def)
  qed
  from bestLoop_first [OF all2, of None NegInf] obtain bm' where
    b: "bestLoop ?ab s (sortMoves ms) None NegInf = Inr (bm', foldl max NegInf vs)"
    and c': "if \<exists>v\<in>set vs. NegInf < v
        then \<exists>i<length (sortMoves ms). bm' = Some (sortMoves ms ! i)
                 \<and> vs ! i = foldl max NegInf vs \<and> (\<forall>j<i. vs ! j < vs ! i)
        else bm' = None" by blast
  have "bm' = r" using b run by simp
  with c' length_sortMoves [of ms] have
    c: "if \<exists>v\<in>set vs. NegInf < v
        then \<exists>i<length ms. r = Some (sortMoves ms ! i) \<and> vs ! i = foldl max NegInf vs
                                   \<and> (\<forall>j<i. vs ! j < vs ! i)
        else r = None" by (cases "\<exists>v\<in>set vs. NegInf < v") auto
  show ?thesis
  proof (cases "ms = []")
    case True
    then have "vs = []" using len by simp
    then show ?thesis using c True by simp
  next
    case False
    then have "0 < length ms" by simp
    then have "vs ! 0 \<in> set vs" "NegInf < vs ! 0" using len fin by simp_all
    then have "\<exists>v\<in>set vs. NegInf < v" by blast
    with c obtain i where i: "i < length ms" "r = Some (sortMoves ms ! i)"
      "vs ! i = foldl max NegInf vs" "\<forall>j<i. vs ! j < vs ! i" by auto
    have "\<forall>j<length ms. \<exists>w. rootScore n s d ai (sortMoves ms ! j) = Inr w
             \<and> w \<le> vs ! i \<and> (j < i \<longrightarrow> w < vs ! i)"
    proof (intro allI impI)
      fix j assume j: "j < length ms"
      have "vs ! j \<in> set vs" using j len by simp
      then have "vs ! j \<le> vs ! i" unfolding i(3) by (rule foldl_max_upper)
      then show "\<exists>w. rootScore n s d ai (sortMoves ms ! j) = Inr w
                   \<and> w \<le> vs ! i \<and> (j < i \<longrightarrow> w < vs ! i)"
        using sc [OF j] i(4) by auto
    qed
    then show ?thesis using False i(1,2) sc [OF i(1)] by auto
  qed
qed

text \<open>
  C5, amended. \<open>getBestMove\<close> is a function of its arguments. It returns no move exactly
  when no move is generated; otherwise it returns the first move, in the order of the
  generated moves sorted stably by descending capture count (\<open>sortMoves\<close>), whose score is
  maximal: every move has a score at most its score, and every move before it in that
  order has a smaller score. It returns when the pieces stand on nodes of the board, the
  depth is at least 1 and the stack holds as many frames as the depth.
\<close>

theorem best_move_first_maximal_in_search_order:
  "(\<forall>ms r. getAllMoves s ai = Inr ms \<and> getBestMove n s d ai = Inr r \<longrightarrow>
       (r = None \<longleftrightarrow> ms = [])
       \<and> (\<forall>m. r = Some m \<longrightarrow>
             (\<exists>i<length ms. \<exists>v. sortMoves ms ! i = m \<and> rootScore n s d ai m = Inr v
                \<and> (\<forall>j<length ms. \<exists>w. rootScore n s d ai (sortMoves ms ! j) = Inr w
                       \<and> w \<le> v \<and> (j < i \<longrightarrow> w < v)))))
   \<and> (onBoard (pieces s) \<and> 1 \<le> d \<and> nat d \<le> n \<longrightarrow> (\<exists>r. getBestMove n s d ai = Inr r))"
proof (intro conjI allI impI)
  fix ms r
  assume a: "getAllMoves s ai = Inr ms \<and> getBestMove n s d ai = Inr r"
  then have g: "getAllMoves s ai = Inr ms" and b: "getBestMove n s d ai = Inr r" by simp_all
  show "r = None \<longleftrightarrow> ms = []"
    using bestMove_first_maximal [OF g b] by blast
  fix m
  assume "r = Some m"
  then show "\<exists>i<length ms. \<exists>v. sortMoves ms ! i = m \<and> rootScore n s d ai m = Inr v
                \<and> (\<forall>j<length ms. \<exists>w. rootScore n s d ai (sortMoves ms ! j) = Inr w
                       \<and> w \<le> v \<and> (j < i \<longrightarrow> w < v))"
    using bestMove_first_maximal [OF g b] by blast
next
  assume "onBoard (pieces s) \<and> 1 \<le> d \<and> nat d \<le> n"
  then show "\<exists>r. getBestMove n s d ai = Inr r" using getBestMove_total by blast
qed

theorem best_move_first_maximal_in_search_order_witness:
  "getAllMoves tieState Black = Inr tieMoves
   \<and> getBestMove 1 tieState 1 Black = Inr (Some (tieMoves ! 5))
   \<and> onBoard (pieces tieState) \<and> (1 :: int) \<le> 1 \<and> nat 1 \<le> (1 :: nat)
   \<and> tieMoves \<noteq> []
   \<and> (\<exists>i<length tieMoves. \<exists>v. sortMoves tieMoves ! i = tieMoves ! 5
          \<and> rootScore 1 tieState 1 Black (tieMoves ! 5) = Inr v
          \<and> (\<forall>j<length tieMoves. \<exists>w. rootScore 1 tieState 1 Black (sortMoves tieMoves ! j) = Inr w
                 \<and> w \<le> v \<and> (j < i \<longrightarrow> w < v)))"
proof -
  have "getAllMoves tieState Black = Inr tieMoves
        \<and> getBestMove 1 tieState 1 Black = Inr (Some (tieMoves ! 5))"
    using tie_all tie_best by simp
  from best_move_first_maximal_in_search_order
         [of tieState Black 1 1, THEN conjunct1, rule_format, OF this]
  show ?thesis using tie_all tie_best tie_onBoard by (simp add: tieMoves_def)
qed

text \<open>
  C10. When the side asked for is not the side to move of the position, \<open>getBestMove\<close>
  returns no move, whatever the depth: \<open>getValidMoves\<close> gives no move for a piece that
  does not belong to the side to move.
\<close>

theorem wrong_side_has_no_best_move:
  assumes "distinct (map fst (pieces s))" and "ai \<noteq> currentPlayer s"
  shows "getBestMove n s d ai = Inr None"
  using getAllMoves_other_side [OF assms]
  by (simp add: getBestMove_def bestSearch_def sortMoves_def)

theorem wrong_side_has_no_best_move_witness:
  "distinct (map fst (pieces tieState)) \<and> White \<noteq> currentPlayer tieState
   \<and> getBestMove 3 tieState 3 White = Inr None"
proof -
  have d: "distinct (map fst (pieces tieState))" by (simp add: tieState_def)
  have w: "White \<noteq> currentPlayer tieState" by (simp add: tieState_def)
  show ?thesis using wrong_side_has_no_best_move [OF d w, of 3 3] d w by simp
qed

section \<open>Patterns, the win condition and unknown nodes\<close>

subsection \<open>Pick patterns\<close>

lemma cross_sym:
  fixes x1 y1 x2 y2 x3 y3 :: int
  shows "\<bar>(y2 - y1) * (x3 - x2) - (x2 - x1) * (y3 - y2)\<bar>
       = \<bar>(y2 - y3) * (x1 - x2) - (x2 - x3) * (y1 - y2)\<bar>"
proof -
  have "(y2 - y3) * (x1 - x2) - (x2 - x3) * (y1 - y2)
        = - ((y2 - y1) * (x3 - x2) - (x2 - x1) * (y3 - y2))"
    by (simp add: algebra_simps)
  then show ?thesis by (simp only: abs_minus_cancel)
qed

lemma areCollinear_sym: "areCollinear a c b = areCollinear b c a"
proof (cases "map_of BOARD_NODES a")
  case None
  then show ?thesis by (simp add: areCollinear_def split: option.splits)
next
  case a: (Some p1)
  show ?thesis
  proof (cases "map_of BOARD_NODES c")
    case None
    then show ?thesis by (simp add: areCollinear_def split: option.splits)
  next
    case c: (Some p2)
    show ?thesis
    proof (cases "map_of BOARD_NODES b")
      case None
      then show ?thesis by (simp add: areCollinear_def split: option.splits)
    next
      case b: (Some p3)
      show ?thesis
        unfolding areCollinear_def Let_def a b c option.case
        by (simp only: cross_sym [of "node_y p2" "node_y p1" "node_x p3" "node_x p2" "node_x p1"
              "node_y p3"])
    qed
  qed
qed

lemma upperPairs_mem:
  "(a, b) \<in> set (upperPairs xs) \<Longrightarrow> a \<in> set xs \<and> b \<in> set xs"
  by (induction xs) auto

lemma upperPairs_distinct:
  "distinct xs \<Longrightarrow> (a, b) \<in> set (upperPairs xs) \<Longrightarrow> a \<noteq> b"
  by (induction xs) (auto dest: upperPairs_mem)

lemma upperPairs_cover:
  "a \<in> set xs \<Longrightarrow> b \<in> set xs \<Longrightarrow> a \<noteq> b \<Longrightarrow>
   (a, b) \<in> set (upperPairs xs) \<or> (b, a) \<in> set (upperPairs xs)"
  by (induction xs) auto

lemma checkPick_neighbors:
  "checkPick ps c me =
     concat (map (\<lambda>(a, b). pickPair ps c (getOpponent me) a b) (upperPairs (neighborsOf c)))"
  by (simp add: checkPick_unfold neighborsOf_def split: option.splits)

lemma distinct_neighborsOf: "distinct (neighborsOf c)"
  by (auto simp: neighborsOf_def board_node_ok(1) split: option.splits)

lemma pickPair_nonempty:
  "pickPair ps c opp a b \<noteq> [] \<longleftrightarrow>
     areCollinear a c b \<and> playerAt ps a = Some opp \<and> playerAt ps b = Some opp"
  by (simp add: pickPair_def)

lemma checkPick_found_iff: "checkPick ps c me \<noteq> [] \<longleftrightarrow> pickPattern ps c me"
proof
  assume "checkPick ps c me \<noteq> []"
  then obtain a b where ab: "(a, b) \<in> set (upperPairs (neighborsOf c))"
    "pickPair ps c (getOpponent me) a b \<noteq> []"
    by (auto simp: checkPick_neighbors)
  have "a \<in> set (neighborsOf c)" "b \<in> set (neighborsOf c)" "a \<noteq> b"
    using upperPairs_mem [OF ab(1)] upperPairs_distinct [OF distinct_neighborsOf ab(1)]
    by simp_all
  then show "pickPattern ps c me"
    using ab(2) unfolding pickPattern_def pickPair_nonempty by blast
next
  assume "pickPattern ps c me"
  then obtain a b where ab: "a \<in> set (neighborsOf c)" "b \<in> set (neighborsOf c)" "a \<noteq> b"
    "areCollinear a c b" "playerAt ps a = Some (getOpponent me)"
    "playerAt ps b = Some (getOpponent me)"
    unfolding pickPattern_def by blast
  have "pickPair ps c (getOpponent me) a b \<noteq> []" "pickPair ps c (getOpponent me) b a \<noteq> []"
    using ab(4-6) areCollinear_sym [of a c b] by (simp_all add: pickPair_nonempty)
  moreover have "(a, b) \<in> set (upperPairs (neighborsOf c))
                 \<or> (b, a) \<in> set (upperPairs (neighborsOf c))"
    by (rule upperPairs_cover [OF ab(1-3)])
  ultimately obtain pr where "pr \<in> set (upperPairs (neighborsOf c))"
    "(case pr of (x, y) \<Rightarrow> pickPair ps c (getOpponent me) x y) \<noteq> []"
    by force
  then show "checkPick ps c me \<noteq> []"
    unfolding checkPick_neighbors concat_eq_Nil_conv by force
qed

lemma pickPair_mem:
  assumes "x \<in> set (pickPair ps c opp a b)"
  shows "areCollinear a c b" "playerAt ps a = Some opp" "playerAt ps b = Some opp"
    "x = a \<or> x = b"
proof -
  have ne: "pickPair ps c opp a b \<noteq> []" using assms by auto
  then show "areCollinear a c b" "playerAt ps a = Some opp" "playerAt ps b = Some opp"
    unfolding pickPair_nonempty by simp_all
  then have "pickPair ps c opp a b = [a, b]" by (simp add: pickPair_def)
  then show "x = a \<or> x = b" using assms by simp
qed

lemma checkPick_flank:
  assumes "x \<in> set (checkPick ps c me)"
  shows "\<exists>y\<in>set (neighborsOf c). x \<in> set (neighborsOf c) \<and> x \<noteq> y \<and> areCollinear x c y
           \<and> playerAt ps x = Some (getOpponent me) \<and> playerAt ps y = Some (getOpponent me)"
proof -
  from assms obtain pr where pr: "pr \<in> set (upperPairs (neighborsOf c))"
    "x \<in> set (case pr of (a, b) \<Rightarrow> pickPair ps c (getOpponent me) a b)"
    unfolding checkPick_neighbors set_concat by force
  obtain a b where e: "pr = (a, b)" by (cases pr)
  have ab: "(a, b) \<in> set (upperPairs (neighborsOf c))"
    "x \<in> set (pickPair ps c (getOpponent me) a b)"
    using pr unfolding e by simp_all
  have m: "a \<in> set (neighborsOf c)" "b \<in> set (neighborsOf c)" "a \<noteq> b"
    using upperPairs_mem [OF ab(1)] upperPairs_distinct [OF distinct_neighborsOf ab(1)]
    by simp_all
  note p = pickPair_mem [OF ab(2)]
  show ?thesis
  proof (cases "x = a")
    case True
    show ?thesis
      by (rule bexI [of _ b]) (simp_all add: True m p)
  next
    case False
    then have xb: "x = b" using p(4) by simp
    have "areCollinear b c a" using p(1) areCollinear_sym [of a c b] by simp
    then show ?thesis
      using m p(2,3) by (intro bexI [of _ a]) (simp_all add: xb)
  qed
qed

text \<open>
  C3. At a centre with a pick pattern the targets of the pass are exactly what
  \<open>checkPick\<close> returns, each of them one end of an opponent-centre-opponent flank, and
  \<open>checkClamp\<close> has no part in the result, not even its failure; \<open>checkClamp\<close> decides
  the targets only at a centre without a pick pattern.
\<close>

theorem pick_suppresses_clamp:
  "(pickPattern ps c me \<longrightarrow>
      centerTargets ps c me = Inr (checkPick ps c me) \<and> checkPick ps c me \<noteq> []
      \<and> (\<forall>x\<in>set (checkPick ps c me).
            \<exists>y\<in>set (neighborsOf c). x \<in> set (neighborsOf c) \<and> x \<noteq> y \<and> areCollinear x c y
               \<and> playerAt ps x = Some (getOpponent me) \<and> playerAt ps y = Some (getOpponent me))
      \<and> (c \<notin> processedNodes st \<and> c_pieces st = ps \<longrightarrow>
            processCenter me st c
              = Inr (foldl (applyFlip me) (st\<lparr>processedNodes := insert c (processedNodes st)\<rparr>)
                       (checkPick ps c me))))
   \<and> (\<not> pickPattern ps c me \<longrightarrow> centerTargets ps c me = checkClamp ps c me)"
proof (intro conjI impI)
  assume p: "pickPattern ps c me"
  then have ne: "checkPick ps c me \<noteq> []" by (simp add: checkPick_found_iff)
  then show ct: "centerTargets ps c me = Inr (checkPick ps c me)"
    by (simp add: centerTargets_def Let_def)
  show "checkPick ps c me \<noteq> []" by (rule ne)
  show "\<forall>x\<in>set (checkPick ps c me).
            \<exists>y\<in>set (neighborsOf c). x \<in> set (neighborsOf c) \<and> x \<noteq> y \<and> areCollinear x c y
               \<and> playerAt ps x = Some (getOpponent me) \<and> playerAt ps y = Some (getOpponent me)"
    using checkPick_flank by blast
  assume "c \<notin> processedNodes st \<and> c_pieces st = ps"
  then show "processCenter me st c
              = Inr (foldl (applyFlip me) (st\<lparr>processedNodes := insert c (processedNodes st)\<rparr>)
                       (checkPick ps c me))"
    using ct by (simp add: processCenter_def Let_def)
next
  assume "\<not> pickPattern ps c me"
  then have "checkPick ps c me = []" using checkPick_found_iff by blast
  then show "centerTargets ps c me = checkClamp ps c me"
    by (simp add: centerTargets_def Let_def)
qed

lemmas center_rules = checkClamp_def clampOuter_def clampInner_def checkPick_unfold node_lookup
  pickPair_def areCollinear_def playerAt_def Let_def getOpponent.simps blackPiece_def
  whitePiece_def

lemma pickClamp_pick: "checkPick pickClampPieces ''1,2'' Black = [''1,1'', ''1,3'']"
  by (simp add: center_rules pickClampPieces_def)

lemma pickClamp_clamp: "checkClamp pickClampPieces ''1,2'' Black = Inr [''2,2'']"
  by (simp add: center_rules pickClampPieces_def)

lemma clampOnly_pick: "checkPick clampOnlyPieces ''1,2'' Black = []"
  by (simp add: center_rules clampOnlyPieces_def)

lemma clampOnly_clamp: "checkClamp clampOnlyPieces ''1,2'' Black = Inr [''2,2'']"
  by (simp add: center_rules clampOnlyPieces_def)

theorem pick_suppresses_clamp_witness:
  "pickPattern pickClampPieces ''1,2'' Black
   \<and> centerTargets pickClampPieces ''1,2'' Black = Inr [''1,1'', ''1,3'']
   \<and> checkClamp pickClampPieces ''1,2'' Black = Inr [''2,2'']
   \<and> \<not> pickPattern clampOnlyPieces ''1,2'' Black
   \<and> centerTargets clampOnlyPieces ''1,2'' Black = Inr [''2,2'']"
proof -
  have p: "pickPattern pickClampPieces ''1,2'' Black"
    using pickClamp_pick checkPick_found_iff [of pickClampPieces "''1,2''" Black] by simp
  have q: "\<not> pickPattern clampOnlyPieces ''1,2'' Black"
    using clampOnly_pick checkPick_found_iff [of clampOnlyPieces "''1,2''" Black] by simp
  show ?thesis
    using pick_suppresses_clamp [of pickClampPieces "''1,2''" Black]
      pick_suppresses_clamp [of clampOnlyPieces "''1,2''" Black]
      p q pickClamp_pick pickClamp_clamp clampOnly_clamp
    by simp
qed

subsection \<open>The win condition\<close>

lemma count_zero_iff:
  "length (filter (\<lambda>pc. player pc = p) (map snd (pieces s))) = 0 \<longleftrightarrow> piecesOf s p = {}"
  by (fastforce simp: piecesOf_def filter_empty_conv)

lemma ex_Player: "(\<exists>p. P p) \<longleftrightarrow> P Black \<or> P White"
proof
  assume "\<exists>p. P p"
  then obtain p where "P p" ..
  then show "P Black \<or> P White" by (cases p) auto
next
  assume "P Black \<or> P White"
  then show "\<exists>p. P p" by blast
qed

lemma trapNodes_maoceIds: "trapNodes = set maoceIds"
proof
  have "\<forall>(k, nd)\<in>set BOARD_NODES. isMaoce nd \<longrightarrow> k \<in> set maoceIds"
    unfolding maoceIds_table by (simp add: BOARD_NODES_table)
  then show "trapNodes \<subseteq> set maoceIds"
    unfolding trapNodes_def using map_of_SomeD by fastforce
  show "set maoceIds \<subseteq> trapNodes"
    by (auto simp: maoceIds_table trapNodes_def node_lookup)
qed

lemma isAllInMaoce_iff:
  "isAllInMaoce s p \<longleftrightarrow> piecesOf s p \<noteq> {} \<and> piecesOf s p \<subseteq> trapNodes"
proof -
  have e: "filter (\<lambda>(nodeId, pc). player pc = p) (pieces s) = [] \<longleftrightarrow> piecesOf s p = {}"
    by (auto simp: piecesOf_def filter_empty_conv)
  have a: "list_all (\<lambda>(nodeId, pc). nodeId \<in> set maoceIds)
             (filter (\<lambda>(nodeId, pc). player pc = p) (pieces s))
           \<longleftrightarrow> piecesOf s p \<subseteq> trapNodes"
    by (auto simp: piecesOf_def list_all_iff trapNodes_maoceIds)
  show ?thesis using e a by (simp add: isAllInMaoce_def Let_def)
qed

text \<open>
  C4. \<open>checkWinCondition\<close> names a winner exactly when a side has no piece or a side has
  pieces and all of them on trap nodes. A side without pieces loses first, Black before
  White, whatever the trap holds; only when both sides have pieces does confinement
  decide, Black's before White's.
\<close>

theorem winner_iff_eliminated_or_confined:
  fixes s :: GameState and p :: Player
  shows "(checkWinCondition s \<noteq> None \<longleftrightarrow>
      (\<exists>p. piecesOf s p = {} \<or> (piecesOf s p \<noteq> {} \<and> piecesOf s p \<subseteq> trapNodes)))
   \<and> (piecesOf s Black = {} \<longrightarrow> checkWinCondition s = Some White)
   \<and> (piecesOf s Black \<noteq> {} \<and> piecesOf s White = {} \<longrightarrow> checkWinCondition s = Some Black)
   \<and> (piecesOf s Black \<noteq> {} \<and> piecesOf s White \<noteq> {} \<longrightarrow>
        checkWinCondition s
          = (if piecesOf s Black \<subseteq> trapNodes then Some White
             else if piecesOf s White \<subseteq> trapNodes then Some Black
             else None))
   \<and> (piecesOf s p = {} \<longrightarrow> \<not> isAllInMaoce s p)"
proof -
  have w: "checkWinCondition s
        = (if piecesOf s Black = {} then Some White
           else if piecesOf s White = {} then Some Black
           else if piecesOf s Black \<subseteq> trapNodes then Some White
           else if piecesOf s White \<subseteq> trapNodes then Some Black
           else None)"
    unfolding checkWinCondition_def Let_def count_zero_iff isAllInMaoce_iff by simp
  show ?thesis
    unfolding w ex_Player
    by (cases "piecesOf s Black = {}"; cases "piecesOf s White = {}";
        cases "piecesOf s Black \<subseteq> trapNodes"; cases "piecesOf s White \<subseteq> trapNodes";
        simp add: isAllInMaoce_iff)
qed

lemma initial_pieces:
  "pieces getInitialState =
     [(''0,0'', \<lparr>piece_id = ''b-0'', player = Black\<rparr>),
      (''0,1'', \<lparr>piece_id = ''b-1'', player = Black\<rparr>),
      (''0,2'', \<lparr>piece_id = ''b-2'', player = Black\<rparr>),
      (''0,3'', \<lparr>piece_id = ''b-3'', player = Black\<rparr>),
      (''0,4'', \<lparr>piece_id = ''b-4'', player = Black\<rparr>),
      (''4,0'', \<lparr>piece_id = ''w-0'', player = White\<rparr>),
      (''4,1'', \<lparr>piece_id = ''w-1'', player = White\<rparr>),
      (''4,2'', \<lparr>piece_id = ''w-2'', player = White\<rparr>),
      (''4,3'', \<lparr>piece_id = ''w-3'', player = White\<rparr>),
      (''4,4'', \<lparr>piece_id = ''w-4'', player = White\<rparr>)]"
  by code_simp

lemma piecesOf_filter:
  "piecesOf s p = set (map fst (filter (\<lambda>(n, pc). player pc = p) (pieces s)))"
  unfolding piecesOf_def by force

lemma confined_sides:
  "piecesOf confinedState Black = {''2,4''}"
  "piecesOf confinedState White = {''m_top'', ''m_center''}"
  by (simp_all add: piecesOf_filter confinedState_def blackPiece_def whitePiece_def)

lemma eliminated_sides:
  "piecesOf eliminatedState Black = {''m_top'', ''m_center''}"
  "piecesOf eliminatedState White = {}"
  by (simp_all add: piecesOf_filter eliminatedState_def blackPiece_def whitePiece_def)

lemma swept_sides:
  "piecesOf sweptState Black = {}"
  "piecesOf sweptState White = {''m_top''}"
  by (simp_all add: piecesOf_filter sweptState_def blackPiece_def whitePiece_def)

lemma initial_sides:
  "piecesOf getInitialState Black = {''0,0'', ''0,1'', ''0,2'', ''0,3'', ''0,4''}"
  "piecesOf getInitialState White = {''4,0'', ''4,1'', ''4,2'', ''4,3'', ''4,4''}"
  by (simp_all add: piecesOf_filter initial_pieces)

lemma trapNodes_table: "trapNodes = {''m_top'', ''m_right'', ''m_bottom'', ''m_center''}"
  by (simp add: trapNodes_maoceIds maoceIds_table)

theorem winner_iff_eliminated_or_confined_witness:
  "piecesOf confinedState Black \<noteq> {} \<and> piecesOf confinedState White \<noteq> {}
   \<and> \<not> piecesOf confinedState Black \<subseteq> trapNodes
   \<and> piecesOf confinedState White \<subseteq> trapNodes
   \<and> checkWinCondition confinedState = Some Black
   \<and> piecesOf eliminatedState Black \<noteq> {} \<and> piecesOf eliminatedState White = {}
   \<and> piecesOf eliminatedState Black \<subseteq> trapNodes
   \<and> checkWinCondition eliminatedState = Some Black
   \<and> \<not> isAllInMaoce eliminatedState White
   \<and> piecesOf sweptState Black = {} \<and> piecesOf sweptState White \<subseteq> trapNodes
   \<and> checkWinCondition sweptState = Some White
   \<and> piecesOf getInitialState Black \<noteq> {} \<and> piecesOf getInitialState White \<noteq> {}
   \<and> checkWinCondition getInitialState = None"
  using winner_iff_eliminated_or_confined [of confinedState White]
    winner_iff_eliminated_or_confined [of eliminatedState White]
    winner_iff_eliminated_or_confined [of getInitialState White]
    winner_iff_eliminated_or_confined [of sweptState Black]
  unfolding confined_sides eliminated_sides initial_sides swept_sides trapNodes_table
  by simp

subsection \<open>Unknown node identifiers\<close>

text \<open>
  The model looks an identifier up among the keys of the table. JavaScript also finds, for
  an identifier that names a member of \<open>Object.prototype\<close> (\<open>constructor\<close>,
  \<open>__proto__\<close>), an inherited value that is no node: its \<open>x\<close> and \<open>y\<close> are
  \<open>undefined\<close>, the cross product of \<open>areCollinear\<close> is \<open>NaN\<close> and the comparison
  with \<open>1e-5\<close> is false, as in the model. \<open>checkPick\<close> and \<open>checkClamp\<close> at such
  a centre iterate the \<open>undefined\<close> \<open>neighbors\<close> of that value and throw, where the
  model returns no target; the statements of this section are about \<open>areCollinear\<close>
  and about identifiers that name no member of \<open>Object.prototype\<close>.
\<close>




end
